theory Spec2Isabelle
  imports
    Main
    "HOL-Library.Word"
    "HOL-Library.Char_ord"
    "HOL-Library.List_Lexorder"
    "HOL-Library.AList"
begin

unbundle bit_operations_syntax

section \<open>Data model of the node database\<close>

text \<open>
  Go's \<^verbatim>\<open>[]byte\<close> is a list of 8-bit words, \<^verbatim>\<open>int64\<close> a 64-bit word read
  with \<open>sint\<close> and compared with the signed orders, \<^verbatim>\<open>uint32\<close> a 32-bit word.
  Go strings are compared bytewise, which is the lexicographic order on character lists.
\<close>

type_synonym byte = "8 word"
type_synonym bytes = "byte list"
type_synonym int64 = "64 word"
type_synonym uint32 = "32 word"

text \<open>
  Errors returned to the caller and panics are values. The messages of the source are
  not kept, one constructor stands for each place that fails; \<open>PanicErr e\<close> is
  \<^verbatim>\<open>panic(err)\<close>.
\<close>

datatype error =
    ErrToVersionNotGreater
  | ErrToVersionZero
  | ErrCannotDeleteLatest
  | ErrActiveReaders
  | ErrTriedToDeleteLatest
  | ErrRootNotFound
  | ErrNonConsecutive
  | ErrInvalidFastStorageVersion
  | ErrBackend nat
  | ErrDecode nat
  | ErrKeyInState
  | ErrKeyNotInState
  | ErrNotOneLeaf
  | PanicErr error
  | PanicRequiresHash
  | PanicValueMissing
  | PanicOrphanLifetime
  | PanicEmptyRootHash

record Node =
  nkey :: bytes
  nvalue :: "bytes option"
  nversion :: int64
  nheight :: "8 word"
  nsize :: int64
  nhash :: bytes
  leftHash :: "bytes option"
  rightHash :: "bytes option"
  persisted :: bool

record FastNode =
  fkey :: bytes
  versionLastUpdatedAt :: int64
  fvalue :: bytes

text \<open>
  The batch of the key-value engine buffers writes. Its \<^verbatim>\<open>Set\<close> and
  \<^verbatim>\<open>Delete\<close> return an error in Go; which operations the engine refuses is a
  field of the model, so that a failing write is an input like any other. A refused
  operation leaves the buffer as it was.
\<close>

datatype batch_op = OpSet bytes bytes | OpDelete bytes

record Batch =
  pending :: "batch_op list"
  refuses :: "batch_op \<Rightarrow> nat option"

definition batch_Set :: "bytes \<Rightarrow> bytes \<Rightarrow> Batch \<Rightarrow> error option \<times> Batch" where
  "batch_Set k v b =
     (case refuses b (OpSet k v) of
        Some e \<Rightarrow> (Some (ErrBackend e), b)
      | None \<Rightarrow> (None, b\<lparr>pending := pending b @ [OpSet k v]\<rparr>))"

definition batch_Delete :: "bytes \<Rightarrow> Batch \<Rightarrow> error option \<times> Batch" where
  "batch_Delete k b =
     (case refuses b (OpDelete k) of
        Some e \<Rightarrow> (Some (ErrBackend e), b)
      | None \<Rightarrow> (None, b\<lparr>pending := pending b @ [OpDelete k]\<rparr>))"

text \<open>
  The committed store is the list of its entries. Reads are those of the in-memory
  engine the repository's tests run on: \<^verbatim>\<open>Get\<close> and the iterators report no I/O
  error, so the branches of the source that only an I/O error of a read reaches are not
  part of the model. Iterators walk the entries in ascending byte order of the keys
  (descending for the reverse iterator), over the half-open domain from start to end.

  An LRU cache is a Go map from the key to a list element together with the queue of
  elements. An element is modelled by a number that identifies it and the value it
  holds; \<open>nextElem\<close> is the next unused number.
\<close>

record nodeDB =
  db :: "(bytes \<times> bytes) list"
  batch :: Batch
  versionReaders :: "(int64 \<times> uint32) list"
  storageVersion :: string
  latestVersion :: int64
  nodeCache :: "(bytes \<times> nat \<times> Node) list"
  nodeCacheSize :: int
  nodeCacheQueue :: "(nat \<times> Node) list"
  fastNodeCache :: "(bytes \<times> nat \<times> FastNode) list"
  fastNodeCacheSize :: int
  fastNodeCacheQueue :: "(nat \<times> FastNode) list"
  nextElem :: nat

definition db_Get :: "(bytes \<times> bytes) list \<Rightarrow> bytes \<Rightarrow> bytes option" where
  "db_Get d k = map_of d k"

definition db_Iterator :: "(bytes \<times> bytes) list \<Rightarrow> bytes \<Rightarrow> bytes \<Rightarrow> (bytes \<times> bytes) list" where
  "db_Iterator d start end' = filter (\<lambda>kv. start \<le> fst kv \<and> fst kv < end') (sort_key fst d)"

definition db_ReverseIterator :: "(bytes \<times> bytes) list \<Rightarrow> bytes \<Rightarrow> bytes \<Rightarrow> (bytes \<times> bytes) list" where
  "db_ReverseIterator d start end' = rev (db_Iterator d start end')"

fun has_prefix :: "bytes \<Rightarrow> bytes \<Rightarrow> bool" where
  "has_prefix [] k = True"
| "has_prefix (p # ps) [] = False"
| "has_prefix (p # ps) (c # cs) = (p = c \<and> has_prefix ps cs)"

definition IteratePrefix :: "(bytes \<times> bytes) list \<Rightarrow> bytes \<Rightarrow> (bytes \<times> bytes) list" where
  "IteratePrefix d prefix = filter (\<lambda>kv. has_prefix prefix (fst kv)) (sort_key fst d)"

subsection \<open>Key formats\<close>

text \<open>
  Modelled from the spec: the KeyFormat codec (its source file is not among the sources).
  A key is the prefix byte followed by the fields, an integer field as 8 bytes big-endian
  and a byte-string field as it is (section 3.2: \<^verbatim>\<open>'n' || hash\<close>,
  \<^verbatim>\<open>'o' || to_version || from_version || hash\<close>, \<^verbatim>\<open>'f' || user_key\<close>,
  \<^verbatim>\<open>'r' || version\<close>, \<^verbatim>\<open>'m' || name\<close>); \<open>Scan\<close> reverses the
  encoding, skipping the prefix (section 4.1).
\<close>

definition be64 :: "int64 \<Rightarrow> bytes" where
  "be64 w = map (\<lambda>i. ucast (drop_bit (8 * i) w)) [7, 6, 5, 4, 3, 2, 1, 0 :: nat]"

definition de64 :: "bytes \<Rightarrow> int64" where
  "de64 bs = foldl (\<lambda>acc b. push_bit 8 acc OR ucast b) 0 (take 8 bs)"

definition bytes_of :: "string \<Rightarrow> bytes" where
  "bytes_of s = map of_char s"

definition nodeKey :: "bytes \<Rightarrow> bytes" where
  "nodeKey hash = 0x6E # hash"

definition orphanKey :: "int64 \<Rightarrow> int64 \<Rightarrow> bytes \<Rightarrow> bytes" where
  "orphanKey fromVersion toVersion hash = 0x6F # be64 toVersion @ be64 fromVersion @ hash"

definition orphanPrefix :: bytes where
  "orphanPrefix = [0x6F]"

definition orphanVersionPrefix :: "int64 \<Rightarrow> bytes" where
  "orphanVersionPrefix version = 0x6F # be64 version"

definition orphanScan :: "bytes \<Rightarrow> int64 \<times> int64" where
  "orphanScan k = (de64 (take 8 (drop 1 k)), de64 (take 8 (drop 9 k)))"

definition fastNodeKey :: "bytes \<Rightarrow> bytes" where
  "fastNodeKey k = 0x66 # k"

definition fastPrefix :: bytes where
  "fastPrefix = [0x66]"

definition metadataKey :: "bytes \<Rightarrow> bytes" where
  "metadataKey name = 0x6D # name"

definition rootKey :: "int64 \<Rightarrow> bytes" where
  "rootKey version = 0x72 # be64 version"

definition rootScan :: "bytes \<Rightarrow> int64" where
  "rootScan k = de64 (take 8 (drop 1 k))"

definition storageVersionKey :: string where
  "storageVersionKey = ''storage_version''"

definition fastStorageVersionDelimiter :: char where
  "fastStorageVersionDelimiter = CHR ''-''"

definition defaultStorageVersionValue :: string where
  "defaultStorageVersionValue = ''1.0.0''"

definition fastStorageVersionValue :: string where
  "fastStorageVersionValue = ''1.1.0''"

subsection \<open>Versions\<close>

definition getPreviousVersion :: "int64 \<Rightarrow> nodeDB \<Rightarrow> int64" where
  "getPreviousVersion version ndb =
     (case db_ReverseIterator (db ndb) (rootKey 1) (rootKey version) of
        [] \<Rightarrow> 0
      | kv # _ \<Rightarrow> rootScan (fst kv))"

definition getLatestVersion :: "nodeDB \<Rightarrow> int64 \<times> nodeDB" where
  "getLatestVersion ndb =
     (let ndb' = (if latestVersion ndb = 0
                  then ndb\<lparr>latestVersion := getPreviousVersion 0x7FFFFFFFFFFFFFFF ndb\<rparr>
                  else ndb)
      in (latestVersion ndb', ndb'))"

definition updateLatestVersion :: "int64 \<Rightarrow> nodeDB \<Rightarrow> nodeDB" where
  "updateLatestVersion version ndb =
     (if latestVersion ndb <s version then ndb\<lparr>latestVersion := version\<rparr> else ndb)"

subsection \<open>Construction\<close>

definition string_of :: "bytes \<Rightarrow> string" where
  "string_of bs = map (\<lambda>b. char_of (unat b)) bs"

text \<open>
  \<^verbatim>\<open>newNodeDB\<close> on a store with the entries \<open>d\<close> whose batches refuse the
  operations \<open>r\<close>, with the cache size given.
\<close>

definition newNodeDB :: "(bytes \<times> bytes) list \<Rightarrow> (batch_op \<Rightarrow> nat option) \<Rightarrow> int \<Rightarrow> nodeDB" where
  "newNodeDB d r cacheSize =
     (let storeVersion =
            (case db_Get d (metadataKey (bytes_of storageVersionKey)) of
               None \<Rightarrow> bytes_of defaultStorageVersionValue
             | Some v \<Rightarrow> v)
      in \<lparr>db = d,
          batch = \<lparr>pending = [], refuses = r\<rparr>,
          versionReaders = [],
          storageVersion = string_of storeVersion,
          latestVersion = 0,
          nodeCache = [],
          nodeCacheSize = cacheSize,
          nodeCacheQueue = [],
          fastNodeCache = [],
          fastNodeCacheSize = cacheSize,
          fastNodeCacheQueue = [],
          nextElem = 0\<rparr>)"

subsection \<open>Strings of the Go library\<close>

text \<open>
  \<^verbatim>\<open>strings.Split\<close> with a separator of one character, and \<^verbatim>\<open>strconv.Itoa\<close>:
  the decimal digits, after a minus sign for a negative number.
\<close>

fun Split :: "string \<Rightarrow> char \<Rightarrow> string list" where
  "Split [] sep = [[]]"
| "Split (c # cs) sep =
     (if c = sep then [] # Split cs sep
      else (case Split cs sep of [] \<Rightarrow> [[c]] | p # ps \<Rightarrow> (c # p) # ps))"

fun digits :: "nat \<Rightarrow> string" where
  "digits n =
     (if n < 10 then [''0123456789'' ! n]
      else digits (n div 10) @ [''0123456789'' ! (n mod 10)])"

declare digits.simps [simp del]

definition Itoa :: "int \<Rightarrow> string" where
  "Itoa i = (if i < 0 then CHR ''-'' # digits (nat (- i)) else digits (nat i))"

subsection \<open>The storage version\<close>

definition setFastStorageVersionToBatch :: "nodeDB \<Rightarrow> error option \<times> nodeDB" where
  "setFastStorageVersionToBatch ndb =
     (case (if storageVersion ndb \<ge> fastStorageVersionValue
            then (let versions = Split (storageVersion ndb) fastStorageVersionDelimiter
                  in if length versions > 2 then Inl ErrInvalidFastStorageVersion
                     else Inr (hd versions))
            else Inr fastStorageVersionValue) of
        Inl e \<Rightarrow> (Some e, ndb)
      | Inr newVersion0 \<Rightarrow>
          (let (latest, ndb1) = getLatestVersion ndb;
               newVersion = newVersion0 @ [fastStorageVersionDelimiter] @ Itoa (sint latest)
           in (case batch_Set (metadataKey (bytes_of storageVersionKey)) (bytes_of newVersion)
                      (batch ndb1) of
                 (Some e, b) \<Rightarrow> (Some e, ndb1\<lparr>batch := b\<rparr>)
               | (None, b) \<Rightarrow> (None, ndb1\<lparr>batch := b, storageVersion := newVersion\<rparr>))))"

definition hasUpgradedToFastStorage :: "nodeDB \<Rightarrow> bool" where
  "hasUpgradedToFastStorage ndb = (storageVersion ndb \<ge> fastStorageVersionValue)"

definition shouldForceFastStorageUpgrade :: "nodeDB \<Rightarrow> bool \<times> nodeDB" where
  "shouldForceFastStorageUpgrade ndb =
     (let versions = Split (storageVersion ndb) fastStorageVersionDelimiter
      in if length versions = 2
         then (let (latest, ndb1) = getLatestVersion ndb
               in if versions ! 1 \<noteq> Itoa (sint latest) then (True, ndb1) else (False, ndb1))
         else (False, ndb))"

subsection \<open>Saving roots\<close>

definition saveRoot :: "bytes \<Rightarrow> int64 \<Rightarrow> nodeDB \<Rightarrow> error option \<times> nodeDB" where
  "saveRoot hash version ndb =
     (let (latest, ndb1) = getLatestVersion ndb
      in if 0 <s latest \<and> version \<noteq> latest + 1 then (Some ErrNonConsecutive, ndb1)
         else (case batch_Set (rootKey version) hash (batch ndb1) of
                 (Some e, b) \<Rightarrow> (Some e, ndb1)
               | (None, b) \<Rightarrow> (None, updateLatestVersion version (ndb1\<lparr>batch := b\<rparr>))))"

definition SaveRoot :: "Node \<Rightarrow> int64 \<Rightarrow> nodeDB \<Rightarrow> error option \<times> nodeDB" where
  "SaveRoot root version ndb =
     (if nhash root = [] then (Some PanicEmptyRootHash, ndb)
      else saveRoot (nhash root) version ndb)"

definition SaveEmptyRoot :: "int64 \<Rightarrow> nodeDB \<Rightarrow> error option \<times> nodeDB" where
  "SaveEmptyRoot version ndb = saveRoot [] version ndb"

subsection \<open>Version readers\<close>

text \<open>
  The Go map \<^verbatim>\<open>versionReaders\<close> is an association list; a version without an
  entry reads as zero, as a missing key of a Go map does.
\<close>

definition readers :: "(int64 \<times> uint32) list \<Rightarrow> int64 \<Rightarrow> uint32" where
  "readers m version = (case map_of m version of None \<Rightarrow> 0 | Some r \<Rightarrow> r)"

definition incrVersionReaders :: "int64 \<Rightarrow> nodeDB \<Rightarrow> nodeDB" where
  "incrVersionReaders version ndb =
     ndb\<lparr>versionReaders :=
           AList.update version (readers (versionReaders ndb) version + 1) (versionReaders ndb)\<rparr>"

definition decrVersionReaders :: "int64 \<Rightarrow> nodeDB \<Rightarrow> nodeDB" where
  "decrVersionReaders version ndb =
     (if readers (versionReaders ndb) version > 0
      then ndb\<lparr>versionReaders :=
                 AList.update version (readers (versionReaders ndb) version - 1)
                   (versionReaders ndb)\<rparr>
      else ndb)"

datatype reader_call = Incr int64 | Decr int64

fun reader_step :: "nodeDB \<Rightarrow> reader_call \<Rightarrow> nodeDB" where
  "reader_step ndb (Incr version) = incrVersionReaders version ndb"
| "reader_step ndb (Decr version) = decrVersionReaders version ndb"

subsection \<open>The caches\<close>

definition list_Remove :: "nat \<Rightarrow> (nat \<times> 'a) list \<Rightarrow> (nat \<times> 'a) list" where
  "list_Remove e q = filter (\<lambda>x. fst x \<noteq> e) q"

definition list_MoveToBack :: "nat \<Rightarrow> (nat \<times> 'a) list \<Rightarrow> (nat \<times> 'a) list" where
  "list_MoveToBack e q =
     (case find (\<lambda>x. fst x = e) q of None \<Rightarrow> q | Some x \<Rightarrow> list_Remove e q @ [x])"

definition uncacheNode :: "bytes \<Rightarrow> nodeDB \<Rightarrow> nodeDB" where
  "uncacheNode hash ndb =
     (case map_of (nodeCache ndb) hash of
        None \<Rightarrow> ndb
      | Some elem \<Rightarrow>
          ndb\<lparr>nodeCacheQueue := list_Remove (fst elem) (nodeCacheQueue ndb),
              nodeCache := AList.delete hash (nodeCache ndb)\<rparr>)"

definition cacheNode :: "Node \<Rightarrow> nodeDB \<Rightarrow> nodeDB" where
  "cacheNode node ndb =
     (let elem = (nextElem ndb, node);
          q = nodeCacheQueue ndb @ [elem];
          m = AList.update (nhash node) elem (nodeCache ndb);
          ndb1 = ndb\<lparr>nodeCacheQueue := q, nodeCache := m, nextElem := Suc (nextElem ndb)\<rparr>
      in if int (length q) > nodeCacheSize ndb
         then (case q of
                 [] \<Rightarrow> ndb1
               | oldest # rest \<Rightarrow>
                   ndb1\<lparr>nodeCacheQueue := rest,
                        nodeCache := AList.delete (nhash (snd oldest)) m\<rparr>)
         else ndb1)"

definition uncacheFastNode :: "bytes \<Rightarrow> nodeDB \<Rightarrow> nodeDB" where
  "uncacheFastNode k ndb =
     (case map_of (fastNodeCache ndb) k of
        None \<Rightarrow> ndb
      | Some elem \<Rightarrow>
          ndb\<lparr>fastNodeCacheQueue := list_Remove (fst elem) (fastNodeCacheQueue ndb),
              fastNodeCache := AList.delete k (fastNodeCache ndb)\<rparr>)"

text \<open>
  The decoder of node records (\<^verbatim>\<open>MakeNode\<close>) and of fast-node records
  (\<^verbatim>\<open>DeserializeFastNode\<close>) are not among the sources and the spec leaves the
  encoding out of its scope: they are parameters of the functions that call them.
\<close>

definition GetNode ::
  "(bytes \<Rightarrow> error + Node) \<Rightarrow> bytes \<Rightarrow> nodeDB \<Rightarrow> (error + Node) \<times> nodeDB" where
  "GetNode MakeNode hash ndb =
     (if hash = [] then (Inl PanicRequiresHash, ndb)
      else (case map_of (nodeCache ndb) hash of
              Some elem \<Rightarrow>
                (Inr (snd elem),
                 ndb\<lparr>nodeCacheQueue := list_MoveToBack (fst elem) (nodeCacheQueue ndb)\<rparr>)
            | None \<Rightarrow>
                (case db_Get (db ndb) (nodeKey hash) of
                   None \<Rightarrow> (Inl PanicValueMissing, ndb)
                 | Some buf \<Rightarrow>
                     (case MakeNode buf of
                        Inl e \<Rightarrow> (Inl (PanicErr e), ndb)
                      | Inr node0 \<Rightarrow>
                          (let node = node0\<lparr>nhash := hash, persisted := True\<rparr>
                           in (Inr node, cacheNode node ndb))))))"

subsection \<open>Traversals\<close>

text \<open>
  A traversal calls \<open>fn\<close> on the entries an iterator yields and stops at the first
  error. The iterator reads the committed store, the callbacks write to the batch only.
\<close>

fun traverse ::
  "(bytes \<Rightarrow> bytes \<Rightarrow> nodeDB \<Rightarrow> error option \<times> nodeDB) \<Rightarrow> (bytes \<times> bytes) list
     \<Rightarrow> nodeDB \<Rightarrow> error option \<times> nodeDB" where
  "traverse fn [] ndb = (None, ndb)"
| "traverse fn (kv # kvs) ndb =
     (case fn (fst kv) (snd kv) ndb of
        (Some e, ndb1) \<Rightarrow> (Some e, ndb1)
      | (None, ndb1) \<Rightarrow> traverse fn kvs ndb1)"

definition traversePrefix ::
  "bytes \<Rightarrow> (bytes \<Rightarrow> bytes \<Rightarrow> nodeDB \<Rightarrow> error option \<times> nodeDB) \<Rightarrow> nodeDB
     \<Rightarrow> error option \<times> nodeDB" where
  "traversePrefix prefix fn ndb = traverse fn (IteratePrefix (db ndb) prefix) ndb"

definition traverseRange ::
  "bytes \<Rightarrow> bytes \<Rightarrow> (bytes \<Rightarrow> bytes \<Rightarrow> nodeDB \<Rightarrow> error option \<times> nodeDB) \<Rightarrow> nodeDB
     \<Rightarrow> error option \<times> nodeDB" where
  "traverseRange start end' fn ndb = traverse fn (db_Iterator (db ndb) start end') ndb"

definition traverseOrphans ::
  "(bytes \<Rightarrow> bytes \<Rightarrow> nodeDB \<Rightarrow> error option \<times> nodeDB) \<Rightarrow> nodeDB \<Rightarrow> error option \<times> nodeDB" where
  "traverseOrphans fn ndb = traversePrefix orphanPrefix fn ndb"

definition traverseFastNodes ::
  "(bytes \<Rightarrow> bytes \<Rightarrow> nodeDB \<Rightarrow> error option \<times> nodeDB) \<Rightarrow> nodeDB \<Rightarrow> error option \<times> nodeDB" where
  "traverseFastNodes fn ndb = traversePrefix fastPrefix fn ndb"

definition traverseOrphansVersion ::
  "int64 \<Rightarrow> (bytes \<Rightarrow> bytes \<Rightarrow> nodeDB \<Rightarrow> error option \<times> nodeDB) \<Rightarrow> nodeDB
     \<Rightarrow> error option \<times> nodeDB" where
  "traverseOrphansVersion version fn ndb = traversePrefix (orphanVersionPrefix version) fn ndb"

text \<open>The callback that deletes the key it is called on.\<close>

definition deleteKey :: "bytes \<Rightarrow> bytes \<Rightarrow> nodeDB \<Rightarrow> error option \<times> nodeDB" where
  "deleteKey k v ndb =
     (case batch_Delete k (batch ndb) of
        (Some e, b) \<Rightarrow> (Some e, ndb)
      | (None, b) \<Rightarrow> (None, ndb\<lparr>batch := b\<rparr>))"

subsection \<open>Orphans and the deletion of one version\<close>

definition saveOrphan :: "bytes \<Rightarrow> int64 \<Rightarrow> int64 \<Rightarrow> nodeDB \<Rightarrow> error option \<times> nodeDB" where
  "saveOrphan hash fromVersion toVersion ndb =
     (if toVersion <s fromVersion then (Some PanicOrphanLifetime, ndb)
      else (case batch_Set (orphanKey fromVersion toVersion hash) hash (batch ndb) of
              (Some e, b) \<Rightarrow> (Some (PanicErr e), ndb)
            | (None, b) \<Rightarrow> (None, ndb\<lparr>batch := b\<rparr>)))"

definition deleteOrphans_fn ::
  "int64 \<Rightarrow> bytes \<Rightarrow> bytes \<Rightarrow> nodeDB \<Rightarrow> error option \<times> nodeDB" where
  "deleteOrphans_fn predecessor k hash ndb =
     (let (toVersion, fromVersion) = orphanScan k
      in (case batch_Delete k (batch ndb) of
            (Some e, b) \<Rightarrow> (Some e, ndb)
          | (None, b) \<Rightarrow>
              (let ndb1 = ndb\<lparr>batch := b\<rparr>
               in if predecessor <s fromVersion \<or> fromVersion = toVersion
                  then (case batch_Delete (nodeKey hash) (batch ndb1) of
                          (Some e, b1) \<Rightarrow> (Some e, ndb1)
                        | (None, b1) \<Rightarrow> (None, uncacheNode hash (ndb1\<lparr>batch := b1\<rparr>)))
                  else saveOrphan hash fromVersion predecessor ndb1)))"

definition deleteOrphans :: "int64 \<Rightarrow> nodeDB \<Rightarrow> error option \<times> nodeDB" where
  "deleteOrphans version ndb =
     (let predecessor = getPreviousVersion version ndb
      in traverseOrphansVersion version (deleteOrphans_fn predecessor) ndb)"

definition deleteRoot :: "int64 \<Rightarrow> bool \<Rightarrow> nodeDB \<Rightarrow> error option \<times> nodeDB" where
  "deleteRoot version checkLatestVersion ndb =
     (let (stop, ndb1) =
            (if checkLatestVersion
             then (let (latest, ndb') = getLatestVersion ndb in (version = latest, ndb'))
             else (False, ndb))
      in if stop then (Some ErrTriedToDeleteLatest, ndb1)
         else (case batch_Delete (rootKey version) (batch ndb1) of
                 (Some e, b) \<Rightarrow> (Some e, ndb1)
               | (None, b) \<Rightarrow> (None, ndb1\<lparr>batch := b\<rparr>)))"

definition DeleteVersion :: "int64 \<Rightarrow> bool \<Rightarrow> nodeDB \<Rightarrow> error option \<times> nodeDB" where
  "DeleteVersion version checkLatestVersion ndb =
     (if readers (versionReaders ndb) version > 0 then (Some ErrActiveReaders, ndb)
      else (case deleteOrphans version ndb of
              (Some e, ndb1) \<Rightarrow> (Some e, ndb1)
            | (None, ndb1) \<Rightarrow> deleteRoot version checkLatestVersion ndb1))"

subsection \<open>Deleting a range of versions\<close>

definition DeleteVersionsRange_fn ::
  "int64 \<Rightarrow> bytes \<Rightarrow> bytes \<Rightarrow> nodeDB \<Rightarrow> error option \<times> nodeDB" where
  "DeleteVersionsRange_fn predecessor k hash ndb =
     (let (to, from) = orphanScan k
      in (case batch_Delete k (batch ndb) of
            (Some e, b) \<Rightarrow> (Some e, ndb)
          | (None, b) \<Rightarrow>
              (let ndb1 = ndb\<lparr>batch := b\<rparr>
               in if predecessor <s from
                  then (case batch_Delete (nodeKey hash) (batch ndb1) of
                          (Some e, b1) \<Rightarrow> (Some (PanicErr e), ndb1)
                        | (None, b1) \<Rightarrow>
                            (None, uncacheFastNode k (uncacheNode hash (ndb1\<lparr>batch := b1\<rparr>))))
                  else saveOrphan hash from predecessor ndb1)))"

function DeleteVersionsRange_versions ::
  "int64 \<Rightarrow> int64 \<Rightarrow> int64 \<Rightarrow> nodeDB \<Rightarrow> error option \<times> nodeDB" where
  "DeleteVersionsRange_versions predecessor version toVersion ndb =
     (if version <s toVersion
      then (case traverseOrphansVersion version (DeleteVersionsRange_fn predecessor) ndb of
              (Some e, ndb1) \<Rightarrow> (Some e, ndb1)
            | (None, ndb1) \<Rightarrow>
                DeleteVersionsRange_versions predecessor (version + 1) toVersion ndb1)
      else (None, ndb))"
  by pat_completeness auto

lemma sint_succ:
  assumes "(version :: 64 word) <s toVersion"
  shows "sint (version + 1) = sint version + 1"
proof -
  have lt: "sint version < sint toVersion" using assms by (simp add: word_sless_alt)
  have ub: "sint toVersion < 2 ^ 63" using sint_lt [of toVersion] by simp
  have lb: "- (2 ^ 63) \<le> sint version" using sint_ge [of version] by simp
  have "sint (version + 1) = signed_take_bit 63 (sint version + 1)"
    by (simp add: sint_word_ariths)
  also have "\<dots> = sint version + 1"
    by (rule signed_take_bit_int_eq_self) (use lt ub lb in auto)
  finally show ?thesis .
qed

termination DeleteVersionsRange_versions
  by (relation "measure (\<lambda>(p, version, toVersion, ndb). nat (sint toVersion - sint version))")
     (auto simp: sint_succ word_sless_alt)

declare DeleteVersionsRange_versions.simps [simp del]

text \<open>
  The loop over the fast-node cache removes the entries last updated in the range; the
  order in which Go walks the map does not change the result.
\<close>

definition evictFastNodes :: "int64 \<Rightarrow> int64 \<Rightarrow> nodeDB \<Rightarrow> nodeDB" where
  "evictFastNodes fromVersion toVersion ndb =
     foldl (\<lambda>s entry.
              (let k = fst entry; elem = snd entry; fastNode = snd elem
               in if fromVersion \<le>s versionLastUpdatedAt fastNode
                     \<and> versionLastUpdatedAt fastNode <s toVersion
                  then s\<lparr>fastNodeCacheQueue := list_Remove (fst elem) (fastNodeCacheQueue s),
                         fastNodeCache := AList.delete k (fastNodeCache s)\<rparr>
                  else s))
       ndb (fastNodeCache ndb)"

definition DeleteVersionsRange :: "int64 \<Rightarrow> int64 \<Rightarrow> nodeDB \<Rightarrow> error option \<times> nodeDB" where
  "DeleteVersionsRange fromVersion toVersion ndb =
     (if toVersion \<le>s fromVersion then (Some ErrToVersionNotGreater, ndb)
      else if toVersion = 0 then (Some ErrToVersionZero, ndb)
      else
        (let (latest, ndb1) = getLatestVersion ndb
         in if latest <s toVersion then (Some ErrCannotDeleteLatest, ndb1)
            else
              (let predecessor = getPreviousVersion fromVersion ndb1
               in if list_ex (\<lambda>vr. fst vr <s toVersion \<and> predecessor <s fst vr \<and> snd vr \<noteq> 0)
                       (versionReaders ndb1)
                  then (Some ErrActiveReaders, ndb1)
                  else
                    (case DeleteVersionsRange_versions predecessor fromVersion toVersion ndb1 of
                       (Some e, ndb2) \<Rightarrow> (Some e, ndb2)
                     | (None, ndb2) \<Rightarrow>
                         traverseRange (rootKey fromVersion) (rootKey toVersion) deleteKey
                           (evictFastNodes fromVersion toVersion ndb2)))))"

subsection \<open>Deleting all versions from a version upwards\<close>

definition DeleteFastNode :: "bytes \<Rightarrow> nodeDB \<Rightarrow> error option \<times> nodeDB" where
  "DeleteFastNode k ndb =
     (case batch_Delete (fastNodeKey k) (batch ndb) of
        (Some e, b) \<Rightarrow> (Some e, ndb)
      | (None, b) \<Rightarrow> (None, uncacheFastNode k (ndb\<lparr>batch := b\<rparr>)))"

text \<open>
  \<^verbatim>\<open>deleteNodesFrom\<close> follows the child hashes of the nodes it loads. Nothing in
  the store bounds that descent, so the model counts its depth down: \<open>None\<close> is a
  descent deeper than \<open>fuel\<close>.
\<close>

fun deleteNodesFrom ::
  "(bytes \<Rightarrow> error + Node) \<Rightarrow> nat \<Rightarrow> int64 \<Rightarrow> bytes \<Rightarrow> nodeDB
     \<Rightarrow> (error option \<times> nodeDB) option" where
  "deleteNodesFrom MakeNode 0 version hash ndb = None"
| "deleteNodesFrom MakeNode (Suc fuel) version hash ndb =
     (if hash = [] then Some (None, ndb)
      else
        (case GetNode MakeNode hash ndb of
           (Inl e, ndb1) \<Rightarrow> Some (Some e, ndb1)
         | (Inr node, ndb1) \<Rightarrow>
             (case (case leftHash node of
                      None \<Rightarrow> Some (None, ndb1)
                    | Some lh \<Rightarrow> deleteNodesFrom MakeNode fuel version lh ndb1) of
                None \<Rightarrow> None
              | Some (Some e, ndb2) \<Rightarrow> Some (Some e, ndb2)
              | Some (None, ndb2) \<Rightarrow>
                  (case (case rightHash node of
                           None \<Rightarrow> Some (None, ndb2)
                         | Some rh \<Rightarrow> deleteNodesFrom MakeNode fuel version rh ndb2) of
                     None \<Rightarrow> None
                   | Some (Some e, ndb3) \<Rightarrow> Some (Some e, ndb3)
                   | Some (None, ndb3) \<Rightarrow>
                       (if version \<le>s nversion node
                        then (case batch_Delete (nodeKey hash) (batch ndb3) of
                                (Some e, b) \<Rightarrow> Some (Some e, ndb3)
                              | (None, b) \<Rightarrow>
                                  Some (None, uncacheNode hash (ndb3\<lparr>batch := b\<rparr>)))
                        else Some (None, ndb3))))))"

definition DeleteVersionsFrom_orphans ::
  "int64 \<Rightarrow> bytes \<Rightarrow> bytes \<Rightarrow> nodeDB \<Rightarrow> error option \<times> nodeDB" where
  "DeleteVersionsFrom_orphans version k hash ndb =
     (let (toVersion, fromVersion) = orphanScan k
      in if version \<le>s fromVersion
         then (case batch_Delete k (batch ndb) of
                 (Some e, b) \<Rightarrow> (Some e, ndb)
               | (None, b) \<Rightarrow>
                   (case batch_Delete (nodeKey hash) b of
                      (Some e, b1) \<Rightarrow> (Some e, ndb\<lparr>batch := b\<rparr>)
                    | (None, b1) \<Rightarrow> (None, ndb\<lparr>batch := b1\<rparr>)))
         else if version - 1 \<le>s toVersion
         then (case batch_Delete k (batch ndb) of
                 (Some e, b) \<Rightarrow> (Some e, ndb)
               | (None, b) \<Rightarrow> (None, ndb\<lparr>batch := b\<rparr>))
         else (None, ndb))"

definition DeleteVersionsFrom_fastNodes ::
  "(bytes \<Rightarrow> bytes \<Rightarrow> error + FastNode) \<Rightarrow> int64 \<Rightarrow> bytes \<Rightarrow> bytes \<Rightarrow> nodeDB
     \<Rightarrow> error option \<times> nodeDB" where
  "DeleteVersionsFrom_fastNodes DeserializeFastNode version keyWithPrefix v ndb =
     (case DeserializeFastNode (drop 1 keyWithPrefix) v of
        Inl e \<Rightarrow> (Some e, ndb)
      | Inr fastNode \<Rightarrow>
          (if version \<le>s versionLastUpdatedAt fastNode
           then DeleteFastNode (fkey fastNode) ndb
           else (None, ndb)))"

definition DeleteVersionsFrom ::
  "(bytes \<Rightarrow> error + Node) \<Rightarrow> (bytes \<Rightarrow> bytes \<Rightarrow> error + FastNode) \<Rightarrow> nat \<Rightarrow> int64
     \<Rightarrow> nodeDB \<Rightarrow> (error option \<times> nodeDB) option" where
  "DeleteVersionsFrom MakeNode DeserializeFastNode fuel version ndb =
     (let (latest, ndb1) = getLatestVersion ndb
      in if latest <s version then Some (None, ndb1)
         else
           (case db_Get (db ndb1) (rootKey latest) of
              None \<Rightarrow> Some (Some ErrRootNotFound, ndb1)
            | Some root \<Rightarrow>
                (if list_ex (\<lambda>vr. version \<le>s fst vr \<and> snd vr \<noteq> 0) (versionReaders ndb1)
                 then Some (Some ErrActiveReaders, ndb1)
                 else
                   (case deleteNodesFrom MakeNode fuel version root ndb1 of
                      None \<Rightarrow> None
                    | Some (Some e, ndb2) \<Rightarrow> Some (Some e, ndb2)
                    | Some (None, ndb2) \<Rightarrow>
                        (case traverseOrphans (DeleteVersionsFrom_orphans version) ndb2 of
                           (Some e, ndb3) \<Rightarrow> Some (Some e, ndb3)
                         | (None, ndb3) \<Rightarrow>
                             (case traverseRange (rootKey version) (rootKey 0x7FFFFFFFFFFFFFFF)
                                     deleteKey ndb3 of
                                (Some e, ndb4) \<Rightarrow> Some (Some e, ndb4)
                              | (None, ndb4) \<Rightarrow>
                                  Some (traverseFastNodes
                                          (DeleteVersionsFrom_fastNodes DeserializeFastNode version)
                                          ndb4)))))))"

section \<open>ICS23 proofs\<close>

subsection \<open>Varints\<close>

text \<open>
  \<^verbatim>\<open>binary.PutVarint\<close> of the Go library: the zig-zag encoding of the signed
  value, then seven bits a byte, least significant first, the high bit set on every
  byte but the last. The model returns the bytes written; the buffer of
  \<^verbatim>\<open>MaxVarintLen64\<close> bytes always holds them.
\<close>

function PutUvarint :: "64 word \<Rightarrow> bytes" where
  "PutUvarint x =
     (if 0x80 \<le> x then (ucast x OR 0x80) # PutUvarint (drop_bit 7 x) else [ucast x])"
  by pat_completeness auto

termination PutUvarint
proof (relation "measure unat")
  show "wf (measure unat)" by simp
next
  fix x :: "64 word"
  assume "0x80 \<le> x"
  then have "128 \<le> unat x" by (simp add: word_le_nat_alt)
  then have "unat x div 128 < unat x" by simp
  then show "(drop_bit 7 x, x) \<in> measure unat"
    by (simp add: drop_bit_eq_div unat_div)
qed

declare PutUvarint.simps [simp del]

definition PutVarint :: "int64 \<Rightarrow> bytes" where
  "PutVarint x = (let ux = push_bit 1 x in PutUvarint (if x <s 0 then NOT ux else ux))"

definition convertVarIntToBytes :: "int64 \<Rightarrow> bytes" where
  "convertVarIntToBytes orig = PutVarint orig"

subsection \<open>Range proofs and the ICS23 operations\<close>

text \<open>
  The types of the range proof (declared outside the sources) and of the ICS23 library,
  with the fields the conversion reads and writes.
\<close>

record ProofInnerNode =
  Height :: "8 word"
  Size :: int64
  Version :: int64
  Left :: bytes
  Right :: bytes

record ProofLeafNode =
  LeafKey :: bytes
  LeafValueHash :: bytes
  LeafVersion :: int64

record RangeProof =
  LeftPath :: "ProofInnerNode list"
  Leaves :: "ProofLeafNode list"

datatype HashOp = HashOp_NO_HASH | HashOp_SHA256

datatype LengthOp = LengthOp_NO_PREFIX | LengthOp_VAR_PROTO

record LeafOp =
  LeafHash :: HashOp
  PrehashValue :: HashOp
  Length :: LengthOp
  LeafPrefix :: bytes

record InnerOp =
  Hash :: HashOp
  Prefix :: bytes
  Suffix :: bytes

record ExistenceProof =
  ExKey :: bytes
  ExValue :: bytes
  ExLeaf :: LeafOp
  ExPath :: "InnerOp list"

record NonExistenceProof =
  NonExKey :: bytes
  NonExLeft :: "ExistenceProof option"
  NonExRight :: "ExistenceProof option"

definition convertLeafOp :: "int64 \<Rightarrow> LeafOp" where
  "convertLeafOp version =
     \<lparr>LeafHash = HashOp_SHA256, PrehashValue = HashOp_SHA256, Length = LengthOp_VAR_PROTO,
      LeafPrefix = convertVarIntToBytes 0 @ convertVarIntToBytes 1 @ convertVarIntToBytes version\<rparr>"

definition lengthByte :: byte where
  "lengthByte = 0x20"

text \<open>The body of the loop of \<^verbatim>\<open>convertInnerOps\<close>, for the path step it is at.\<close>

definition convertInnerOps_step :: "ProofInnerNode \<Rightarrow> InnerOp" where
  "convertInnerOps_step p =
     (let prefix0 = convertVarIntToBytes (scast (Height p));
          prefix1 = prefix0 @ convertVarIntToBytes (Size p);
          prefix2 = prefix1 @ convertVarIntToBytes (Version p)
      in if length (Left p) > 0
         then \<lparr>Hash = HashOp_SHA256,
               Prefix = ((prefix2 @ [lengthByte]) @ Left p) @ [lengthByte],
               Suffix = []\<rparr>
         else \<lparr>Hash = HashOp_SHA256,
               Prefix = prefix2 @ [lengthByte],
               Suffix = [lengthByte] @ Right p\<rparr>)"

text \<open>
  The loop runs \<open>i\<close> from the last index down to 0; the counter of the model is
  \<open>i + 1\<close>.
\<close>

fun convertInnerOps_loop :: "ProofInnerNode list \<Rightarrow> nat \<Rightarrow> InnerOp list \<Rightarrow> InnerOp list" where
  "convertInnerOps_loop path 0 steps = steps"
| "convertInnerOps_loop path (Suc i) steps =
     convertInnerOps_loop path i (steps @ [convertInnerOps_step (path ! i)])"

definition convertInnerOps :: "ProofInnerNode list \<Rightarrow> InnerOp list" where
  "convertInnerOps path = convertInnerOps_loop path (length path) []"

definition convertExistenceProof :: "RangeProof \<Rightarrow> bytes \<Rightarrow> bytes \<Rightarrow> error + ExistenceProof" where
  "convertExistenceProof p k v =
     (if length (Leaves p) \<noteq> 1 then Inl ErrNotOneLeaf
      else Inr \<lparr>ExKey = k, ExValue = v,
                ExLeaf = convertLeafOp (LeafVersion (Leaves p ! 0)),
                ExPath = convertInnerOps (LeftPath p)\<rparr>)"

subsection \<open>The tree a proof is built for\<close>

text \<open>
  Modelled from the spec: the immutable tree (its source file is not among the sources).
  A snapshot is the list of its key-value pairs in ascending order of the keys.
  \<^verbatim>\<open>GetWithIndex\<close> locates the index where the key would be inserted, with the value
  when the key is there and nil when it is not (section 4.5); \<^verbatim>\<open>GetByIndex\<close> gives
  the key and value at an index, nil outside the tree. The construction of range proofs
  is out of the spec's scope: \<open>GetWithProof\<close> is a field of the tree.
\<close>

record ImmutableTree =
  pairs :: "(bytes \<times> bytes) list"
  GetWithProof :: "bytes \<Rightarrow> error + (bytes option \<times> RangeProof)"

fun locate :: "(bytes \<times> bytes) list \<Rightarrow> bytes \<Rightarrow> int \<times> bytes option" where
  "locate [] k = (0, None)"
| "locate (kv # kvs) k =
     (if k = fst kv then (0, Some (snd kv))
      else if k < fst kv then (0, None)
      else (let (i, v) = locate kvs k in (i + 1, v)))"

definition GetWithIndex :: "ImmutableTree \<Rightarrow> bytes \<Rightarrow> int \<times> bytes option" where
  "GetWithIndex t k = locate (pairs t) k"

definition GetByIndex :: "ImmutableTree \<Rightarrow> int \<Rightarrow> bytes option \<times> bytes option" where
  "GetByIndex t i =
     (if 0 \<le> i \<and> i < int (length (pairs t))
      then (Some (fst (pairs t ! nat i)), Some (snd (pairs t ! nat i)))
      else (None, None))"

text \<open>A nil key handed on as a byte slice is the empty slice.\<close>

definition slice_of :: "bytes option \<Rightarrow> bytes" where
  "slice_of k = (case k of None \<Rightarrow> [] | Some b \<Rightarrow> b)"

definition createExistenceProof :: "ImmutableTree \<Rightarrow> bytes \<Rightarrow> error + ExistenceProof" where
  "createExistenceProof tree k =
     (case GetWithProof tree k of
        Inl e \<Rightarrow> Inl e
      | Inr (v, proof) \<Rightarrow>
          (case v of
             None \<Rightarrow> Inl ErrKeyNotInState
           | Some val \<Rightarrow> convertExistenceProof proof k val))"

definition getNonMembershipProof :: "ImmutableTree \<Rightarrow> bytes \<Rightarrow> error + NonExistenceProof" where
  "getNonMembershipProof t k =
     (let (idx, val) = GetWithIndex t k
      in if val \<noteq> None then Inl ErrKeyInState
         else
           (case (if idx \<ge> 1
                  then (case createExistenceProof t (slice_of (fst (GetByIndex t (idx - 1)))) of
                          Inl e \<Rightarrow> Inl e
                        | Inr l \<Rightarrow> Inr (Some l))
                  else Inr None) of
              Inl e \<Rightarrow> Inl e
            | Inr left \<Rightarrow>
                (case fst (GetByIndex t idx) of
                   None \<Rightarrow> Inr \<lparr>NonExKey = k, NonExLeft = left, NonExRight = None\<rparr>
                 | Some rightkey \<Rightarrow>
                     (case createExistenceProof t rightkey of
                        Inl e \<Rightarrow> Inl e
                      | Inr r \<Rightarrow> Inr \<lparr>NonExKey = k, NonExLeft = left, NonExRight = Some r\<rparr>))))"

section \<open>Properties\<close>

subsection \<open>Strings and keys\<close>

lemma string_of_bytes_of: "string_of (bytes_of s) = s"
proof -
  have "char_of (unat (of_char c :: 8 word)) = c" for c
  proof -
    have "(of_char c :: 8 word) = of_nat (of_char c)" by (simp only: of_nat_of_char)
    then have "unat (of_char c :: 8 word) = of_char c mod 256"
      by (simp only: unat_of_nat) simp
    then show ?thesis by simp
  qed
  then show ?thesis by (simp add: string_of_def bytes_of_def map_idI)
qed

lemma Split_not_Nil: "Split s c \<noteq> []"
  by (induction s) (auto split: list.splits)

lemma Split_single: "Split s c = [a] \<longleftrightarrow> s = a \<and> c \<notin> set a"
proof (induction s arbitrary: a)
  case Nil
  show ?case by auto
next
  case (Cons x xs)
  show ?case
  proof (cases "x = c")
    case True
    then show ?thesis using Split_not_Nil [of xs c] by auto
  next
    case False
    obtain p ps where sp: "Split xs c = p # ps"
      using Split_not_Nil [of xs c] by (cases "Split xs c") auto
    show ?thesis
    proof (cases a)
      case Nil
      with sp False show ?thesis by auto
    next
      case (Cons y ys)
      with sp False Cons.IH [of ys] show ?thesis by auto
    qed
  qed
qed

lemma Split_two: "Split s c = [a, b] \<longleftrightarrow> s = a @ c # b \<and> c \<notin> set a \<and> c \<notin> set b"
proof (induction s arbitrary: a)
  case Nil
  show ?case by auto
next
  case (Cons x xs)
  show ?case
  proof (cases "x = c")
    case True
    then show ?thesis using Split_single [of xs c b]
      by (cases a) auto
  next
    case False
    obtain p ps where sp: "Split xs c = p # ps"
      using Split_not_Nil [of xs c] by (cases "Split xs c") auto
    show ?thesis
    proof (cases a)
      case Nil
      with sp False show ?thesis by auto
    next
      case (Cons y ys)
      with sp False Cons.IH [of ys] show ?thesis by auto
    qed
  qed
qed

lemma hd_Split: "hd (Split s c) = takeWhile (\<lambda>x. x \<noteq> c) s"
  by (induction s) (auto split: list.splits simp: Split_not_Nil)

lemma length_Split: "length (Split s c) = Suc (count_list s c)"
  by (induction s) (auto split: list.splits simp: Split_not_Nil)

lemma Split_two_parts:
  "(length (Split s c) = 2 \<and> Split s c ! 1 \<noteq> d) \<longleftrightarrow>
   (\<exists>a b. s = a @ c # b \<and> c \<notin> set a \<and> c \<notin> set b \<and> b \<noteq> d)"
proof
  assume l: "length (Split s c) = 2 \<and> Split s c ! 1 \<noteq> d"
  then obtain a b where ab: "Split s c = [a, b]"
    by (cases "Split s c"; cases "tl (Split s c)") auto
  with l have "b \<noteq> d" by simp
  with ab show "\<exists>a b. s = a @ c # b \<and> c \<notin> set a \<and> c \<notin> set b \<and> b \<noteq> d"
    using Split_two [of s c a b] by blast
next
  assume "\<exists>a b. s = a @ c # b \<and> c \<notin> set a \<and> c \<notin> set b \<and> b \<noteq> d"
  then obtain a b where "s = a @ c # b" "c \<notin> set a" "c \<notin> set b" "b \<noteq> d" by blast
  then have "Split s c = [a, b]" "b \<noteq> d" using Split_two [of s c a b] by auto
  then show "length (Split s c) = 2 \<and> Split s c ! 1 \<noteq> d" by simp
qed

lemmas eval_newNodeDB = newNodeDB_def db_Get_def defaultStorageVersionValue_def string_of_bytes_of

lemmas eval_latest = getLatestVersion_def getPreviousVersion_def db_ReverseIterator_def
  db_Iterator_def

subsection \<open>The storage version\<close>

text \<open>
  Claim C6. \<^verbatim>\<open>shouldForceFastStorageUpgrade\<close> answers true exactly when the storage
  version string has exactly two parts separated by \<^verbatim>\<open>-\<close> and the second part is
  not the decimal latest version. The parts are those of \<^verbatim>\<open>strings.Split\<close>; having
  exactly two of them is the same as being \<open>a-b\<close> with no \<^verbatim>\<open>-\<close> in \<open>a\<close> and
  \<open>b\<close>. With the latest version 100 the answer is true for \<^verbatim>\<open>1.1.0-99\<close> and false
  for \<^verbatim>\<open>1.1.0-100\<close>.
\<close>

theorem shouldForceFastStorageUpgrade_two_parts:
  "(fst (shouldForceFastStorageUpgrade ndb) =
      (length (Split (storageVersion ndb) CHR ''-'') = 2
       \<and> Split (storageVersion ndb) CHR ''-'' ! 1 \<noteq> Itoa (sint (fst (getLatestVersion ndb)))))
   \<and> (fst (shouldForceFastStorageUpgrade ndb) =
      (\<exists>a b. storageVersion ndb = a @ CHR ''-'' # b \<and> CHR ''-'' \<notin> set a \<and> CHR ''-'' \<notin> set b
             \<and> b \<noteq> Itoa (sint (fst (getLatestVersion ndb)))))
   \<and> fst (shouldForceFastStorageUpgrade (ndb\<lparr>latestVersion := 100, storageVersion := ''1.1.0-99''\<rparr>))
   \<and> \<not> fst (shouldForceFastStorageUpgrade (ndb\<lparr>latestVersion := 100, storageVersion := ''1.1.0-100''\<rparr>))"
proof -
  have split: "fst (shouldForceFastStorageUpgrade s) =
      (length (Split (storageVersion s) CHR ''-'') = 2
       \<and> Split (storageVersion s) CHR ''-'' ! 1 \<noteq> Itoa (sint (fst (getLatestVersion s))))" for s
    by (simp add: shouldForceFastStorageUpgrade_def fastStorageVersionDelimiter_def Let_def
        split: prod.splits)
  have ex: "fst (shouldForceFastStorageUpgrade ndb) =
      (\<exists>a b. storageVersion ndb = a @ CHR ''-'' # b \<and> CHR ''-'' \<notin> set a \<and> CHR ''-'' \<notin> set b
             \<and> b \<noteq> Itoa (sint (fst (getLatestVersion ndb))))"
    unfolding split by (rule Split_two_parts)
  have a: "fst (shouldForceFastStorageUpgrade (ndb\<lparr>latestVersion := 100, storageVersion := ''1.1.0-99''\<rparr>))"
    unfolding split by (simp add: getLatestVersion_def Itoa_def digits.simps)
  have b: "\<not> fst (shouldForceFastStorageUpgrade (ndb\<lparr>latestVersion := 100, storageVersion := ''1.1.0-100''\<rparr>))"
    unfolding split by (simp add: getLatestVersion_def Itoa_def digits.simps)
  from split [of ndb] ex a b show ?thesis by blast
qed

text \<open>
  Claim C5, as the code has it. The parts of the storage version string are counted only
  when the string is already fast (at least \<^verbatim>\<open>1.1.0\<close> in the order of strings):
  then more than two parts fail with \<^verbatim>\<open>errInvalidFastStorageVersion\<close> and nothing
  changes. Otherwise the new string is the first part of the old one when it was fast, or
  \<^verbatim>\<open>1.1.0\<close> when it was legacy, then \<^verbatim>\<open>-\<close> and the decimal latest version. When
  the batch accepts the write the string in memory becomes the new one; when the batch
  refuses it the error is returned and the string in memory is the old one.
\<close>

theorem setFastStorageVersionToBatch_guarded:
  "(fastStorageVersionValue \<le> storageVersion ndb
      \<and> 2 < length (Split (storageVersion ndb) CHR ''-'')
    \<longrightarrow> setFastStorageVersionToBatch ndb = (Some ErrInvalidFastStorageVersion, ndb))
   \<and> (\<not> (fastStorageVersionValue \<le> storageVersion ndb
          \<and> 2 < length (Split (storageVersion ndb) CHR ''-''))
    \<longrightarrow> (let new = (if fastStorageVersionValue \<le> storageVersion ndb
                      then takeWhile (\<lambda>c. c \<noteq> CHR ''-'') (storageVersion ndb)
                      else ''1.1.0'')
                     @ ''-'' @ Itoa (sint (fst (getLatestVersion ndb)));
             op = OpSet (metadataKey (bytes_of ''storage_version'')) (bytes_of new);
             res = setFastStorageVersionToBatch ndb
         in (refuses (batch ndb) op = None
               \<longrightarrow> fst res = None \<and> storageVersion (snd res) = new
                   \<and> pending (batch (snd res)) = pending (batch ndb) @ [op])
          \<and> (\<forall>e. refuses (batch ndb) op = Some e
               \<longrightarrow> fst res = Some (ErrBackend e)
                   \<and> storageVersion (snd res) = storageVersion ndb
                   \<and> pending (batch (snd res)) = pending (batch ndb))))"
  by (auto simp: setFastStorageVersionToBatch_def fastStorageVersionDelimiter_def Let_def
        fastStorageVersionValue_def storageVersionKey_def getLatestVersion_def batch_Set_def
        hd_Split
      split: prod.splits option.splits sum.splits)

text \<open>
  The four branches of C5 at concrete states: a fast string of three parts, the legacy
  string of a new database, a fast string of two parts, and a batch that refuses the write.
\<close>

theorem setFastStorageVersionToBatch_guarded_witness:
  "setFastStorageVersionToBatch ((newNodeDB [] (\<lambda>_. None) 0)\<lparr>storageVersion := ''1.1.0-1-2''\<rparr>)
     = (Some ErrInvalidFastStorageVersion,
        (newNodeDB [] (\<lambda>_. None) 0)\<lparr>storageVersion := ''1.1.0-1-2''\<rparr>)
   \<and> fst (setFastStorageVersionToBatch (newNodeDB [] (\<lambda>_. None) 0)) = None
   \<and> storageVersion (snd (setFastStorageVersionToBatch (newNodeDB [] (\<lambda>_. None) 0))) = ''1.1.0-0''
   \<and> fst (setFastStorageVersionToBatch
             ((newNodeDB [] (\<lambda>_. None) 0)\<lparr>storageVersion := ''1.1.1-41'', latestVersion := 42\<rparr>)) = None
   \<and> storageVersion (snd (setFastStorageVersionToBatch
             ((newNodeDB [] (\<lambda>_. None) 0)\<lparr>storageVersion := ''1.1.1-41'', latestVersion := 42\<rparr>)))
       = ''1.1.1-42''
   \<and> fst (setFastStorageVersionToBatch (newNodeDB [] (\<lambda>_. Some 5) 0)) = Some (ErrBackend 5)
   \<and> storageVersion (snd (setFastStorageVersionToBatch (newNodeDB [] (\<lambda>_. Some 5) 0))) = ''1.0.0''"
  using setFastStorageVersionToBatch_guarded
          [of "(newNodeDB [] (\<lambda>_. None) 0)\<lparr>storageVersion := ''1.1.0-1-2''\<rparr>"]
        setFastStorageVersionToBatch_guarded [of "newNodeDB [] (\<lambda>_. None) 0"]
        setFastStorageVersionToBatch_guarded
          [of "(newNodeDB [] (\<lambda>_. None) 0)\<lparr>storageVersion := ''1.1.1-41'', latestVersion := 42\<rparr>"]
        setFastStorageVersionToBatch_guarded [of "newNodeDB [] (\<lambda>_. Some 5) 0"]
  by (simp add: eval_newNodeDB eval_latest fastStorageVersionValue_def Let_def Itoa_def
        digits.simps)

text \<open>
  C5 as the spec states it fails on a legacy string of more than two parts: the string
  \<^verbatim>\<open>1.0.0-1-2\<close> has three parts, and the call returns no error and sets the
  storage version to \<^verbatim>\<open>1.1.0-7\<close>, 7 being the latest version.
\<close>

theorem setFastStorageVersionToBatch_legacy_counterexample:
  "2 < length (Split ''1.0.0-1-2'' CHR ''-'')
   \<and> fst (setFastStorageVersionToBatch
            ((newNodeDB [] (\<lambda>_. None) 0)\<lparr>storageVersion := ''1.0.0-1-2'', latestVersion := 7\<rparr>))
       \<noteq> Some ErrInvalidFastStorageVersion
   \<and> setFastStorageVersionToBatch
        ((newNodeDB [] (\<lambda>_. None) 0)\<lparr>storageVersion := ''1.0.0-1-2'', latestVersion := 7\<rparr>)
       = (None, (newNodeDB [] (\<lambda>_. None) 0)
                  \<lparr>storageVersion := ''1.1.0-7'', latestVersion := 7,
                    batch := \<lparr>pending = [OpSet (metadataKey (bytes_of ''storage_version''))
                                            (bytes_of ''1.1.0-7'')],
                              refuses = (\<lambda>_. None)\<rparr>\<rparr>)"
  by (simp add: setFastStorageVersionToBatch_def eval_newNodeDB eval_latest
        fastStorageVersionValue_def fastStorageVersionDelimiter_def storageVersionKey_def
        batch_Set_def Let_def Itoa_def digits.simps)

subsection \<open>The conversion of inner path steps\<close>

lemma convertInnerOps_loop_eq:
  "i \<le> length path \<Longrightarrow>
   convertInnerOps_loop path i steps = steps @ map convertInnerOps_step (rev (take i path))"
proof (induction i arbitrary: steps)
  case 0
  show ?case by simp
next
  case (Suc i)
  then have "i < length path" by simp
  then have "take (Suc i) path = take i path @ [path ! i]" by (rule take_Suc_conv_app_nth)
  with Suc show ?case by simp
qed

text \<open>
  Claim C8. \<^verbatim>\<open>convertInnerOps\<close> emits one operation for each step of the path, in
  reverse order (leaf toward root). The prefix of an operation begins with the varints of
  the height, the size and the version of its step; when the left hash of the step is not
  empty the prefix goes on with \<^verbatim>\<open>0x20\<close>, the left hash and \<^verbatim>\<open>0x20\<close> and the
  suffix is empty; otherwise the prefix goes on with \<^verbatim>\<open>0x20\<close> and the suffix is
  \<^verbatim>\<open>0x20\<close> followed by the right hash.
\<close>

theorem convertInnerOps_reversed_steps:
  "convertInnerOps path =
     map (\<lambda>p. \<lparr>Hash = HashOp_SHA256,
                Prefix = PutVarint (scast (Height p)) @ PutVarint (Size p) @ PutVarint (Version p)
                         @ (if Left p \<noteq> [] then [0x20] @ Left p @ [0x20] else [0x20]),
                Suffix = (if Left p \<noteq> [] then [] else [0x20] @ Right p)\<rparr>)
       (rev path)"
proof -
  have "convertInnerOps path = map convertInnerOps_step (rev path)"
    by (simp add: convertInnerOps_def convertInnerOps_loop_eq)
  moreover have "convertInnerOps_step = (\<lambda>p. \<lparr>Hash = HashOp_SHA256,
                Prefix = PutVarint (scast (Height p)) @ PutVarint (Size p) @ PutVarint (Version p)
                         @ (if Left p \<noteq> [] then [0x20] @ Left p @ [0x20] else [0x20]),
                Suffix = (if Left p \<noteq> [] then [] else [0x20] @ Right p)\<rparr>)"
    by (rule ext) (simp add: convertInnerOps_step_def convertVarIntToBytes_def lengthByte_def Let_def)
  ultimately show ?thesis by simp
qed

text \<open>
  The varint of the model on some values, and its length: the ten bytes of the buffer of
  the source always suffice.
\<close>

lemma PutVarint_examples:
  "PutVarint 0 = [0]" "PutVarint 1 = [2]" "PutVarint (-1) = [1]" "PutVarint 300 = [0xD8, 0x04]"
  "PutVarint (-64) = [0x7F]" "PutVarint 64 = [0x80, 0x01]"
  by (simp_all add: PutVarint_def PutUvarint.simps Let_def word_sless_alt word_le_nat_alt)

lemma length_PutUvarint_bound:
  "1 \<le> k \<Longrightarrow> unat x < 2 ^ (7 * k) \<Longrightarrow> length (PutUvarint x) \<le> k"
proof (induction k arbitrary: x)
  case 0
  then show ?case by simp
next
  case (Suc k)
  show ?case
  proof (cases "0x80 \<le> x")
    case False
    then show ?thesis by (simp add: PutUvarint.simps)
  next
    case True
    then have ge: "128 \<le> unat x" by (simp add: word_le_nat_alt)
    have d: "unat (drop_bit 7 x) = unat x div 128" by (simp add: drop_bit_eq_div unat_div)
    have k1: "1 \<le> k"
    proof (rule ccontr)
      assume "\<not> 1 \<le> k"
      then have "k = 0" by simp
      with Suc.prems ge show False by simp
    qed
    have "unat x < 128 * 2 ^ (7 * k)" using Suc.prems by (simp add: power_add)
    then have "unat x div 128 < 2 ^ (7 * k)" by (simp add: less_mult_imp_div_less mult.commute)
    with d have "length (PutUvarint (drop_bit 7 x)) \<le> k" using Suc.IH [OF k1] by simp
    with True show ?thesis by (simp add: PutUvarint.simps)
  qed
qed

lemma length_PutVarint: "length (PutVarint x) \<le> 10"
proof -
  have "unat w < 2 ^ (7 * 10)" for w :: "64 word"
  proof -
    have "unat w < 2 ^ 64" using unsigned_less [of w] by simp
    also have "(2::nat) ^ 64 \<le> 2 ^ (7 * 10)" by simp
    finally show ?thesis .
  qed
  then show ?thesis
    by (simp add: PutVarint_def Let_def length_PutUvarint_bound)
qed

subsection \<open>Version readers\<close>

lemma readers_update:
  "readers (AList.update k r m) v = (if v = k then r else readers m v)"
  by (simp add: readers_def update_conv')

lemma readers_incr:
  "readers (versionReaders (incrVersionReaders k ndb)) v =
     (if v = k then readers (versionReaders ndb) v + 1 else readers (versionReaders ndb) v)"
  by (simp add: incrVersionReaders_def readers_update)

lemma readers_decr:
  "readers (versionReaders (decrVersionReaders k ndb)) v =
     (if v = k \<and> readers (versionReaders ndb) v > 0 then readers (versionReaders ndb) v - 1
      else readers (versionReaders ndb) v)"
  by (simp add: decrVersionReaders_def readers_update)

lemma unat_succ_le: "unat (r + 1 :: 32 word) \<le> unat r + 1"
proof -
  have "unat (r + 1) = (unat r + 1) mod 2 ^ 32" by (simp add: unat_word_ariths)
  then show ?thesis by simp
qed

lemma unat_pred_le: "0 < r \<Longrightarrow> unat (r - 1 :: 32 word) \<le> unat r"
  using measure_unat [of r] by (simp add: word_neq_0_conv)

lemma reader_step_bound:
  "unat (readers (versionReaders (reader_step ndb c)) v)
     \<le> unat (readers (versionReaders ndb) v) + (if c = Incr v then 1 else 0)"
proof (cases c)
  case (Incr k)
  then show ?thesis using unat_succ_le [of "readers (versionReaders ndb) v"]
    by (auto simp: readers_incr)
next
  case (Decr k)
  then show ?thesis using unat_pred_le [of "readers (versionReaders ndb) v"]
    by (auto simp: readers_decr)
qed

lemma reader_calls_bound:
  "unat (readers (versionReaders (foldl reader_step ndb calls)) v)
     \<le> unat (readers (versionReaders ndb) v) + length (filter (\<lambda>c. c = Incr v) calls)"
proof (induction calls arbitrary: ndb)
  case Nil
  show ?case by simp
next
  case (Cons c calls)
  have "unat (readers (versionReaders (foldl reader_step (reader_step ndb c) calls)) v)
          \<le> unat (readers (versionReaders (reader_step ndb c)) v)
             + length (filter (\<lambda>c. c = Incr v) calls)"
    by (rule Cons.IH)
  with reader_step_bound [of ndb c v] show ?case by auto
qed

text \<open>
  Claim C9. The reader count of a version is an unsigned number, so it is never negative;
  what could go wrong is a decrement at zero that wraps around to the largest number.
  Starting from an empty reader map, after any sequence of increments and decrements the
  count of a version is at most the number of increments of that version in the sequence.
  A decrement at count zero changes nothing and leaves the count at zero; a decrement at
  a count that is not zero takes one off.
\<close>

theorem version_readers_never_below_zero:
  "(versionReaders ndb = [] \<longrightarrow>
      unat (readers (versionReaders (foldl reader_step ndb calls)) v)
        \<le> length (filter (\<lambda>c. c = Incr v) calls))
   \<and> (readers (versionReaders ndb) v = 0 \<longrightarrow>
        decrVersionReaders v ndb = ndb
        \<and> readers (versionReaders (decrVersionReaders v ndb)) v = 0)
   \<and> (readers (versionReaders ndb) v \<noteq> 0 \<longrightarrow>
        uint (readers (versionReaders (decrVersionReaders v ndb)) v)
          = uint (readers (versionReaders ndb) v) - 1)
   \<and> 0 \<le> uint (readers (versionReaders (foldl reader_step ndb calls)) v)"
proof -
  have a: "versionReaders ndb = [] \<longrightarrow>
      unat (readers (versionReaders (foldl reader_step ndb calls)) v)
        \<le> length (filter (\<lambda>c. c = Incr v) calls)"
    using reader_calls_bound [of ndb calls v] by (auto simp: readers_def)
  have b: "readers (versionReaders ndb) v = 0 \<longrightarrow>
        decrVersionReaders v ndb = ndb
        \<and> readers (versionReaders (decrVersionReaders v ndb)) v = 0"
    by (simp add: decrVersionReaders_def)
  have c: "readers (versionReaders ndb) v \<noteq> 0 \<longrightarrow>
        uint (readers (versionReaders (decrVersionReaders v ndb)) v)
          = uint (readers (versionReaders ndb) v) - 1"
  proof
    assume nz: "readers (versionReaders ndb) v \<noteq> 0"
    then have "1 \<le> readers (versionReaders ndb) v" by (simp add: word_le_nat_alt unat_gt_0 Suc_le_eq)
    then have "uint (1 :: 32 word) \<le> uint (readers (versionReaders ndb) v)"
      by (simp only: word_le_def)
    then have "uint (readers (versionReaders ndb) v - 1) = uint (readers (versionReaders ndb) v) - uint (1 :: 32 word)"
      by (simp only: uint_sub_lem)
    with nz show "uint (readers (versionReaders (decrVersionReaders v ndb)) v)
          = uint (readers (versionReaders ndb) v) - 1"
      by (simp add: readers_decr word_neq_0_conv)
  qed
  from a b c show ?thesis by simp
qed

text \<open>C9 on a sequence of calls that decrements at zero twice.\<close>

theorem version_readers_never_below_zero_witness:
  "unat (readers (versionReaders
      (foldl reader_step (newNodeDB [] (\<lambda>_. None) 0) [Decr 3, Incr 3, Decr 3, Decr 3, Incr 4])) 3) \<le> 1
   \<and> readers (versionReaders
      (foldl reader_step (newNodeDB [] (\<lambda>_. None) 0) [Decr 3, Incr 3, Decr 3, Decr 3, Incr 4])) 3 = 0
   \<and> readers (versionReaders
      (foldl reader_step (newNodeDB [] (\<lambda>_. None) 0) [Decr 3, Incr 3, Decr 3, Decr 3, Incr 4])) 4 = 1
   \<and> decrVersionReaders 3 (newNodeDB [] (\<lambda>_. None) 0) = newNodeDB [] (\<lambda>_. None) 0
   \<and> uint (readers (versionReaders (decrVersionReaders 3 (incrVersionReaders 3 (newNodeDB [] (\<lambda>_. None) 0)))) 3) = 0"
  using version_readers_never_below_zero
          [of "newNodeDB [] (\<lambda>_. None) 0" "[Decr 3, Incr 3, Decr 3, Decr 3, Incr 4]" 3]
        version_readers_never_below_zero
          [of "incrVersionReaders 3 (newNodeDB [] (\<lambda>_. None) 0)" "[]" 3]
  by (simp add: eval_newNodeDB incrVersionReaders_def decrVersionReaders_def readers_def)

subsection \<open>Saving roots\<close>

lemma getLatestVersion_frame:
  "snd (getLatestVersion ndb) = ndb\<lparr>latestVersion := fst (getLatestVersion ndb)\<rparr>"
  by (simp add: getLatestVersion_def Let_def)

lemma getLatestVersion_fields [simp]:
  "db (snd (getLatestVersion ndb)) = db ndb"
  "batch (snd (getLatestVersion ndb)) = batch ndb"
  "versionReaders (snd (getLatestVersion ndb)) = versionReaders ndb"
  "storageVersion (snd (getLatestVersion ndb)) = storageVersion ndb"
  "nodeCache (snd (getLatestVersion ndb)) = nodeCache ndb"
  "nodeCacheQueue (snd (getLatestVersion ndb)) = nodeCacheQueue ndb"
  "fastNodeCache (snd (getLatestVersion ndb)) = fastNodeCache ndb"
  "fastNodeCacheQueue (snd (getLatestVersion ndb)) = fastNodeCacheQueue ndb"
  "latestVersion (snd (getLatestVersion ndb)) = fst (getLatestVersion ndb)"
  by (simp_all add: getLatestVersion_def Let_def)

lemma sless_succ:
  assumes "0 <s (latest :: 64 word)" "0 <s latest + 1"
  shows "latest <s latest + 1"
proof -
  have p: "0 < sint latest" using assms(1) by (simp add: word_sless_alt)
  have ub: "sint latest < 2 ^ 63" using sint_lt [of latest] by simp
  have eq: "sint (latest + 1) = signed_take_bit 63 (sint latest + 1)"
    by (simp add: sint_word_ariths)
  show ?thesis
  proof (cases "sint latest + 1 < 2 ^ 63")
    case True
    then have "signed_take_bit 63 (sint latest + 1) = sint latest + 1"
      using p by (intro signed_take_bit_int_eq_self) auto
    with eq show ?thesis by (simp add: word_sless_alt)
  next
    case False
    with ub have "sint latest = 2 ^ 63 - 1" by simp
    with eq have "sint (latest + 1) = signed_take_bit 63 (9223372036854775808 :: int)" by simp
    then have "sint (latest + 1) < 0" by simp
    with assms(2) show ?thesis by (simp add: word_sless_alt)
  qed
qed

text \<open>
  Claim C4. Versions are positive: the spec has them form the prefix from 1 to the latest
  version, the initial version being any positive integer. With \<open>latest\<close> the latest
  version the call reads: when \<open>latest\<close> is positive and the version is not
  \<open>latest + 1\<close>, the call returns an error and writes nothing to the batch. Otherwise
  (in particular when \<open>latest\<close> is 0, whatever the version) the version is accepted:
  the call succeeds when the batch accepts the write of the root record, and returns the
  error of the engine, with nothing written, when the batch refuses it. On success the
  root record is the operation added to the batch and the latest version, as cached and
  as the next call reads it, is the version. \<^verbatim>\<open>SaveEmptyRoot\<close> and
  \<^verbatim>\<open>SaveRoot\<close> (on a root with a hash) are \<^verbatim>\<open>saveRoot\<close> on the empty
  hash and on the hash of the root.
\<close>

theorem saveRoot_consecutive:
  assumes pos: "0 <s version"
  shows
  "(0 <s fst (getLatestVersion ndb) \<and> version \<noteq> fst (getLatestVersion ndb) + 1
      \<longrightarrow> saveRoot hash version ndb = (Some ErrNonConsecutive, snd (getLatestVersion ndb))
          \<and> pending (batch (snd (saveRoot hash version ndb))) = pending (batch ndb))
   \<and> (\<not> (0 <s fst (getLatestVersion ndb) \<and> version \<noteq> fst (getLatestVersion ndb) + 1)
      \<longrightarrow> (refuses (batch ndb) (OpSet (rootKey version) hash) = None
             \<longrightarrow> fst (saveRoot hash version ndb) = None)
          \<and> (\<forall>e. refuses (batch ndb) (OpSet (rootKey version) hash) = Some e
             \<longrightarrow> fst (saveRoot hash version ndb) = Some (ErrBackend e)
                 \<and> pending (batch (snd (saveRoot hash version ndb))) = pending (batch ndb)))
   \<and> (fst (saveRoot hash version ndb) = None
      \<longrightarrow> pending (batch (snd (saveRoot hash version ndb)))
              = pending (batch ndb) @ [OpSet (rootKey version) hash]
          \<and> latestVersion (snd (saveRoot hash version ndb)) = version
          \<and> fst (getLatestVersion (snd (saveRoot hash version ndb))) = version)
   \<and> SaveEmptyRoot version ndb = saveRoot [] version ndb
   \<and> (nhash root \<noteq> [] \<longrightarrow> SaveRoot root version ndb = saveRoot (nhash root) version ndb)"
proof -
  obtain latest ndb1 where g: "getLatestVersion ndb = (latest, ndb1)"
    by (cases "getLatestVersion ndb")
  have f: "batch ndb1 = batch ndb" "latestVersion ndb1 = latest"
    using getLatestVersion_fields(2) [of ndb] getLatestVersion_fields(9) [of ndb] g by simp_all
  have lt: "latest <s version" if "\<not> (0 <s latest \<and> version \<noteq> latest + 1)"
  proof (cases "0 <s latest")
    case True
    with that have "version = latest + 1" by simp
    with True pos show ?thesis using sless_succ [of latest] by simp
  next
    case False
    with pos show ?thesis by (simp add: word_sless_alt)
  qed
  have nz: "version \<noteq> 0" using pos by auto
  have gl: "fst (getLatestVersion s) = version" if "latestVersion s = version" for s
    using that nz by (simp add: getLatestVersion_def)
  have main: "(0 <s latest \<and> version \<noteq> latest + 1
      \<longrightarrow> saveRoot hash version ndb = (Some ErrNonConsecutive, ndb1)
          \<and> pending (batch (snd (saveRoot hash version ndb))) = pending (batch ndb))
   \<and> (\<not> (0 <s latest \<and> version \<noteq> latest + 1)
      \<longrightarrow> (refuses (batch ndb) (OpSet (rootKey version) hash) = None
             \<longrightarrow> fst (saveRoot hash version ndb) = None)
          \<and> (\<forall>e. refuses (batch ndb) (OpSet (rootKey version) hash) = Some e
             \<longrightarrow> fst (saveRoot hash version ndb) = Some (ErrBackend e)
                 \<and> pending (batch (snd (saveRoot hash version ndb))) = pending (batch ndb)))
   \<and> (fst (saveRoot hash version ndb) = None
      \<longrightarrow> pending (batch (snd (saveRoot hash version ndb)))
              = pending (batch ndb) @ [OpSet (rootKey version) hash]
          \<and> latestVersion (snd (saveRoot hash version ndb)) = version)
   \<and> SaveEmptyRoot version ndb = saveRoot [] version ndb
   \<and> (nhash root \<noteq> [] \<longrightarrow> SaveRoot root version ndb = saveRoot (nhash root) version ndb)"
    using lt
    by (auto simp: saveRoot_def SaveRoot_def SaveEmptyRoot_def g f batch_Set_def
          updateLatestVersion_def split: option.splits)
  show ?thesis
    using main gl [of "snd (saveRoot hash version ndb)"] unfolding g by (simp add: f)
qed

lemmas eval_keys = rootKey_def be64_def rootScan_def de64_def

text \<open>
  C4 at a database whose latest version is 3, for the versions 5 (refused) and 4
  (accepted), and at a new database, whose latest version is 0, for the initial
  version 7.
\<close>

theorem saveRoot_consecutive_witness:
  "saveRoot [1, 2] 5 ((newNodeDB [] (\<lambda>_. None) 0)\<lparr>latestVersion := 3\<rparr>)
     = (Some ErrNonConsecutive, (newNodeDB [] (\<lambda>_. None) 0)\<lparr>latestVersion := 3\<rparr>)
   \<and> fst (saveRoot [1, 2] 4 ((newNodeDB [] (\<lambda>_. None) 0)\<lparr>latestVersion := 3\<rparr>)) = None
   \<and> pending (batch (snd (saveRoot [1, 2] 4 ((newNodeDB [] (\<lambda>_. None) 0)\<lparr>latestVersion := 3\<rparr>))))
       = [OpSet (rootKey 4) [1, 2]]
   \<and> latestVersion (snd (saveRoot [1, 2] 4 ((newNodeDB [] (\<lambda>_. None) 0)\<lparr>latestVersion := 3\<rparr>))) = 4
   \<and> fst (getLatestVersion (newNodeDB [] (\<lambda>_. None) 0)) = 0
   \<and> fst (saveRoot [1, 2] 7 (newNodeDB [] (\<lambda>_. None) 0)) = None
   \<and> pending (batch (snd (saveRoot [1, 2] 7 (newNodeDB [] (\<lambda>_. None) 0))))
       = [OpSet (rootKey 7) [1, 2]]
   \<and> latestVersion (snd (saveRoot [1, 2] 7 (newNodeDB [] (\<lambda>_. None) 0))) = 7"
  using saveRoot_consecutive [of 5 "(newNodeDB [] (\<lambda>_. None) 0)\<lparr>latestVersion := 3\<rparr>" "[1, 2]"]
        saveRoot_consecutive [of 4 "(newNodeDB [] (\<lambda>_. None) 0)\<lparr>latestVersion := 3\<rparr>" "[1, 2]"]
        saveRoot_consecutive [of 7 "newNodeDB [] (\<lambda>_. None) 0" "[1, 2]"]
  by (simp add: eval_newNodeDB eval_latest word_sless_alt)

text \<open>
  The versions of the spec start at 1. An initial version that is not positive is no
  version of the spec: the code writes its root record and, as
  \<^verbatim>\<open>updateLatestVersion\<close> only raises the latest version, leaves the latest
  version at 0.
\<close>

lemma saveRoot_nonpositive_initial:
  "fst (getLatestVersion (newNodeDB [] (\<lambda>_. None) 0)) = 0
   \<and> fst (SaveEmptyRoot (- 1) (newNodeDB [] (\<lambda>_. None) 0)) = None
   \<and> pending (batch (snd (SaveEmptyRoot (- 1) (newNodeDB [] (\<lambda>_. None) 0))))
       = [OpSet (rootKey (- 1)) []]
   \<and> latestVersion (snd (SaveEmptyRoot (- 1) (newNodeDB [] (\<lambda>_. None) 0))) = 0"
  by (simp add: SaveEmptyRoot_def saveRoot_def eval_newNodeDB eval_latest batch_Set_def
        updateLatestVersion_def word_sless_alt)

subsection \<open>Deleting from a version above the latest\<close>

text \<open>
  Claim C10. When the latest version is below the version given,
  \<^verbatim>\<open>DeleteVersionsFrom\<close> returns no error at once, whatever the depth allowed to the
  descent. The only field that can differ afterwards is the cached latest version, which
  the call may have read from the store; the store, the batch, both caches and their
  queues, the reader counts and the storage version are as before.
\<close>

theorem DeleteVersionsFrom_above_latest:
  "fst (getLatestVersion ndb) <s version \<longrightarrow>
     DeleteVersionsFrom MakeNode DeserializeFastNode fuel version ndb
       = Some (None, ndb\<lparr>latestVersion := fst (getLatestVersion ndb)\<rparr>)
     \<and> (\<forall>ndb'. DeleteVersionsFrom MakeNode DeserializeFastNode fuel version ndb = Some (None, ndb')
          \<longrightarrow> db ndb' = db ndb \<and> batch ndb' = batch ndb
              \<and> nodeCache ndb' = nodeCache ndb \<and> nodeCacheQueue ndb' = nodeCacheQueue ndb
              \<and> fastNodeCache ndb' = fastNodeCache ndb
              \<and> fastNodeCacheQueue ndb' = fastNodeCacheQueue ndb
              \<and> versionReaders ndb' = versionReaders ndb
              \<and> storageVersion ndb' = storageVersion ndb)"
  by (auto simp: DeleteVersionsFrom_def getLatestVersion_def Let_def)

text \<open>C10 on a store with the roots of versions 1 and 2, for version 5.\<close>

theorem DeleteVersionsFrom_above_latest_witness:
  "fst (getLatestVersion (newNodeDB [(rootKey 1, [1]), (rootKey 2, [2])] (\<lambda>_. None) 0)) = 2
   \<and> DeleteVersionsFrom (\<lambda>_. Inl (ErrDecode 0)) (\<lambda>_ _. Inl (ErrDecode 1)) 0 5
        (newNodeDB [(rootKey 1, [1]), (rootKey 2, [2])] (\<lambda>_. None) 0)
       = Some (None, (newNodeDB [(rootKey 1, [1]), (rootKey 2, [2])] (\<lambda>_. None) 0)
                       \<lparr>latestVersion := 2\<rparr>)"
proof -
  have l: "fst (getLatestVersion (newNodeDB [(rootKey 1, [1]), (rootKey 2, [2])] (\<lambda>_. None) 0)) = 2"
    by (simp add: newNodeDB_def eval_latest eval_keys)
  then have "fst (getLatestVersion (newNodeDB [(rootKey 1, [1]), (rootKey 2, [2])] (\<lambda>_. None) 0)) <s 5"
    by simp
  with l DeleteVersionsFrom_above_latest
          [of "newNodeDB [(rootKey 1, [1]), (rootKey 2, [2])] (\<lambda>_. None) 0" 5
              "\<lambda>_. Inl (ErrDecode 0)" "\<lambda>_ _. Inl (ErrDecode 1)" 0]
  show ?thesis by simp
qed

subsection \<open>Keys\<close>

text \<open>Scanning a key gives back the versions it was built from.\<close>

lemma de_step:
  "push_bit 8 (take_bit k (drop_bit 8 (w :: 64 word))) OR ucast (ucast w :: 8 word) = take_bit (k + 8) w"
  by (rule bit_word_eqI) (auto simp: bit_simps)

lemma de64_be64: "de64 (be64 w) = w"
proof -
  have 1: "ucast (ucast (drop_bit 56 w) :: 8 word) = take_bit 8 (drop_bit 56 w)"
    using de_step [of 0 "drop_bit 56 w"] by simp
  have 2: "push_bit 8 (take_bit 8 (drop_bit 56 w)) OR ucast (ucast (drop_bit 48 w) :: 8 word)
             = take_bit 16 (drop_bit 48 w)"
    using de_step [of 8 "drop_bit 48 w"] by simp
  have 3: "push_bit 8 (take_bit 16 (drop_bit 48 w)) OR ucast (ucast (drop_bit 40 w) :: 8 word)
             = take_bit 24 (drop_bit 40 w)"
    using de_step [of 16 "drop_bit 40 w"] by simp
  have 4: "push_bit 8 (take_bit 24 (drop_bit 40 w)) OR ucast (ucast (drop_bit 32 w) :: 8 word)
             = take_bit 32 (drop_bit 32 w)"
    using de_step [of 24 "drop_bit 32 w"] by simp
  have 5: "push_bit 8 (take_bit 32 (drop_bit 32 w)) OR ucast (ucast (drop_bit 24 w) :: 8 word)
             = take_bit 40 (drop_bit 24 w)"
    using de_step [of 32 "drop_bit 24 w"] by simp
  have 6: "push_bit 8 (take_bit 40 (drop_bit 24 w)) OR ucast (ucast (drop_bit 16 w) :: 8 word)
             = take_bit 48 (drop_bit 16 w)"
    using de_step [of 40 "drop_bit 16 w"] by simp
  have 7: "push_bit 8 (take_bit 48 (drop_bit 16 w)) OR ucast (ucast (drop_bit 8 w) :: 8 word)
             = take_bit 56 (drop_bit 8 w)"
    using de_step [of 48 "drop_bit 8 w"] by simp
  have 8: "push_bit 8 (take_bit 56 (drop_bit 8 w)) OR ucast (ucast w :: 8 word) = w"
    using de_step [of 56 w] by (simp add: take_bit_word_eq_self)
  show ?thesis
    unfolding de64_def be64_def by (simp add: 1 2 3 4 5 6 7 8)
qed

lemma length_be64: "length (be64 w) = 8"
  by (simp add: be64_def)

lemma be64_inj: "be64 a = be64 b \<Longrightarrow> a = b"
  by (metis de64_be64)

lemma orphanScan_orphanKey: "orphanScan (orphanKey f t h) = (t, f)"
  by (simp add: orphanScan_def orphanKey_def de64_be64 length_be64)

lemma rootScan_rootKey: "rootScan (rootKey v) = v"
  by (simp add: rootScan_def rootKey_def de64_be64 length_be64)

lemma has_prefix_iff: "has_prefix p k \<longleftrightarrow> (\<exists>r. k = p @ r)"
proof (induction p k rule: has_prefix.induct)
  case (1 k)
  show ?case by simp
next
  case (2 p ps)
  show ?case by simp
next
  case (3 p ps c cs)
  then show ?case by auto
qed

lemma has_prefix_orphanKey: "has_prefix (orphanVersionPrefix v) (orphanKey f t h) \<longleftrightarrow> t = v"
  by (auto simp: has_prefix_iff orphanVersionPrefix_def orphanKey_def length_be64 dest: be64_inj)

subsection \<open>Traversals that write to the batch\<close>

text \<open>
  A batch is accepting when its engine refuses no operation. The operations a traversal
  adds to an accepting batch are the operations of its callback on each entry, in the
  order of the iterator.
\<close>

definition accepting :: "nodeDB \<Rightarrow> bool" where
  "accepting ndb = (\<forall>op. refuses (batch ndb) op = None)"

text \<open>
  The operations the callback of \<^verbatim>\<open>deleteOrphans\<close> writes for an orphan
  record that ends at the version deleted, when none is refused: the orphan record is
  deleted; then the node record is deleted when the predecessor is before the first
  version of the orphan or the orphan lives for that one version, and otherwise the
  orphan is written again with the predecessor as its last version.
\<close>

definition deleteOrphans_ops :: "int64 \<Rightarrow> bytes \<times> bytes \<Rightarrow> batch_op list" where
  "deleteOrphans_ops predecessor kv =
     (let (toVersion, fromVersion) = orphanScan (fst kv)
      in OpDelete (fst kv)
         # (if predecessor <s fromVersion \<or> fromVersion = toVersion
            then [OpDelete (nodeKey (snd kv))]
            else [OpSet (orphanKey fromVersion predecessor (snd kv)) (snd kv)]))"

lemma traverse_accepting:
  assumes "\<And>k h s. P s \<Longrightarrow>
             fst (fn k h s) = None \<and> P (snd (fn k h s))
             \<and> pending (batch (snd (fn k h s))) = pending (batch s) @ g (k, h)"
      and "P s"
  shows "fst (traverse fn kvs s) = None \<and> P (snd (traverse fn kvs s))
         \<and> pending (batch (snd (traverse fn kvs s))) = pending (batch s) @ concat (map g kvs)"
  using assms(2)
proof (induction kvs arbitrary: s)
  case Nil
  then show ?case by simp
next
  case (Cons kv kvs)
  obtain s1 where s1: "fn (fst kv) (snd kv) s = (None, s1)"
    using assms(1) [OF Cons.prems, of "fst kv" "snd kv"]
    by (cases "fn (fst kv) (snd kv) s") auto
  have p1: "P s1" "pending (batch s1) = pending (batch s) @ g kv"
    using assms(1) [OF Cons.prems, of "fst kv" "snd kv"] s1 by auto
  from Cons.IH [OF p1(1)] p1(2) s1 show ?case by simp
qed

lemma traverse_frame:
  assumes "\<And>k h s. f (snd (fn k h s)) = f s"
  shows "f (snd (traverse fn kvs s)) = f s"
proof (induction kvs arbitrary: s)
  case Nil
  show ?case by simp
next
  case (Cons kv kvs)
  show ?case
    using assms [of "fst kv" "snd kv" s] Cons.IH [of "snd (fn (fst kv) (snd kv) s)"]
    by (cases "fn (fst kv) (snd kv) s") (auto split: option.splits)
qed

lemma uncacheNode_frame [simp]:
  "db (uncacheNode h s) = db s" "batch (uncacheNode h s) = batch s"
  "latestVersion (uncacheNode h s) = latestVersion s"
  "versionReaders (uncacheNode h s) = versionReaders s"
  "storageVersion (uncacheNode h s) = storageVersion s"
  "fastNodeCache (uncacheNode h s) = fastNodeCache s"
  "fastNodeCacheQueue (uncacheNode h s) = fastNodeCacheQueue s"
  by (simp_all add: uncacheNode_def split: option.splits)

lemma uncacheFastNode_frame [simp]:
  "db (uncacheFastNode h s) = db s" "batch (uncacheFastNode h s) = batch s"
  "latestVersion (uncacheFastNode h s) = latestVersion s"
  "versionReaders (uncacheFastNode h s) = versionReaders s"
  "storageVersion (uncacheFastNode h s) = storageVersion s"
  "nodeCache (uncacheFastNode h s) = nodeCache s"
  "nodeCacheQueue (uncacheFastNode h s) = nodeCacheQueue s"
  by (simp_all add: uncacheFastNode_def split: option.splits)

lemma accepting_uncache [simp]:
  "accepting (uncacheNode h s) = accepting s"
  "accepting (uncacheFastNode k s) = accepting s"
  by (simp_all add: accepting_def)

subsection \<open>Deleting one version\<close>

lemma deleteOrphans_fn_accepting:
  assumes "accepting s"
  shows "fst (deleteOrphans_fn p k h s) = None \<and> accepting (snd (deleteOrphans_fn p k h s))
         \<and> pending (batch (snd (deleteOrphans_fn p k h s)))
             = pending (batch s) @ deleteOrphans_ops p (k, h)"
  using assms
  by (auto simp: deleteOrphans_fn_def deleteOrphans_ops_def accepting_def batch_Delete_def
        batch_Set_def saveOrphan_def Let_def word_sless_alt split: prod.splits)

lemma deleteOrphans_fn_frame:
  "db (snd (deleteOrphans_fn p k h s)) = db s"
  "latestVersion (snd (deleteOrphans_fn p k h s)) = latestVersion s"
  by (auto simp: deleteOrphans_fn_def batch_Delete_def batch_Set_def saveOrphan_def Let_def
      split: prod.splits option.splits)

lemma deleteOrphans_accepting:
  assumes "accepting s"
  shows "fst (deleteOrphans v s) = None \<and> accepting (snd (deleteOrphans v s))
         \<and> pending (batch (snd (deleteOrphans v s)))
             = pending (batch s)
               @ concat (map (deleteOrphans_ops (getPreviousVersion v s))
                           (IteratePrefix (db s) (orphanVersionPrefix v)))"
  unfolding deleteOrphans_def traverseOrphansVersion_def traversePrefix_def Let_def
  by (rule traverse_accepting
        [where P = accepting and fn = "deleteOrphans_fn (getPreviousVersion v s)"
           and g = "deleteOrphans_ops (getPreviousVersion v s)"])
     (simp_all add: deleteOrphans_fn_accepting assms)

lemma deleteOrphans_frame:
  "db (snd (deleteOrphans v s)) = db s"
  "latestVersion (snd (deleteOrphans v s)) = latestVersion s"
  unfolding deleteOrphans_def traverseOrphansVersion_def traversePrefix_def Let_def
  by (rule traverse_frame, rule deleteOrphans_fn_frame)+

lemma getLatestVersion_cong:
  "db s1 = db s \<Longrightarrow> latestVersion s1 = latestVersion s \<Longrightarrow>
   fst (getLatestVersion s1) = fst (getLatestVersion s)"
  by (simp add: getLatestVersion_def getPreviousVersion_def Let_def)

lemma DeleteVersion_effect:
  "(readers (versionReaders ndb) version \<noteq> 0
      \<longrightarrow> DeleteVersion version chk ndb = (Some ErrActiveReaders, ndb))
   \<and> (readers (versionReaders ndb) version = 0 \<and> accepting ndb
      \<longrightarrow> (let ops = concat (map (deleteOrphans_ops (getPreviousVersion version ndb))
                                  (IteratePrefix (db ndb) (orphanVersionPrefix version)));
               res = DeleteVersion version chk ndb
           in if chk \<and> version = fst (getLatestVersion ndb)
              then fst res = Some ErrTriedToDeleteLatest
                   \<and> pending (batch (snd res)) = pending (batch ndb) @ ops
              else fst res = None
                   \<and> pending (batch (snd res))
                       = pending (batch ndb) @ ops @ [OpDelete (rootKey version)]))"
proof -
  have a: "readers (versionReaders ndb) version \<noteq> 0
      \<longrightarrow> DeleteVersion version chk ndb = (Some ErrActiveReaders, ndb)"
    by (simp add: DeleteVersion_def word_neq_0_conv)
  have b: "(let ops = concat (map (deleteOrphans_ops (getPreviousVersion version ndb))
                                  (IteratePrefix (db ndb) (orphanVersionPrefix version)));
               res = DeleteVersion version chk ndb
           in if chk \<and> version = fst (getLatestVersion ndb)
              then fst res = Some ErrTriedToDeleteLatest
                   \<and> pending (batch (snd res)) = pending (batch ndb) @ ops
              else fst res = None
                   \<and> pending (batch (snd res))
                       = pending (batch ndb) @ ops @ [OpDelete (rootKey version)])"
    if r: "readers (versionReaders ndb) version = 0" and acc: "accepting ndb"
  proof -
    obtain s1 where s1: "deleteOrphans version ndb = (None, s1)"
      using deleteOrphans_accepting [OF acc, of version]
      by (cases "deleteOrphans version ndb") auto
    have p: "accepting s1"
      "pending (batch s1) = pending (batch ndb)
         @ concat (map (deleteOrphans_ops (getPreviousVersion version ndb))
                     (IteratePrefix (db ndb) (orphanVersionPrefix version)))"
      using deleteOrphans_accepting [OF acc, of version] s1 by auto
    have l: "fst (getLatestVersion s1) = fst (getLatestVersion ndb)"
      using deleteOrphans_frame [of version ndb] s1 by (intro getLatestVersion_cong) auto
    have dv: "DeleteVersion version chk ndb = deleteRoot version chk s1"
      using r s1 by (simp add: DeleteVersion_def)
    show ?thesis
      using p l
      by (auto simp: dv deleteRoot_def Let_def batch_Delete_def accepting_def
            getLatestVersion_def split: prod.splits)
  qed
  from a b show ?thesis by blast
qed


subsection \<open>Deleting one version from a batch that may refuse\<close>

lemma find_append_first:
  "find P (xs @ ys) = (case find P xs of None \<Rightarrow> find P ys | Some x \<Rightarrow> Some x)"
  by (induction xs) auto

text \<open>
  A batch that refuses operations. \<open>refusal\<close> is the error a call ends with at an
  operation the engine refuses: the error of the engine for a deletion, which the
  callbacks return, and the panic with that error for a write, which
  \<^verbatim>\<open>saveOrphan\<close> raises. A traversal whose callback writes the operations
  \<open>g\<close> of an entry up to the first one refused writes the operations of all entries
  up to the first one refused, and ends with its refusal.
\<close>

definition refusal :: "(batch_op \<Rightarrow> nat option) \<Rightarrow> batch_op \<Rightarrow> error" where
  "refusal r op = (case op of OpDelete k \<Rightarrow> ErrBackend (the (r op))
                   | OpSet k v \<Rightarrow> PanicErr (ErrBackend (the (r op))))"

lemma traverse_refusing:
  assumes step: "\<And>k h s. refuses (batch s) = r \<Longrightarrow>
             refuses (batch (snd (fn k h s))) = r
             \<and> pending (batch (snd (fn k h s)))
                 = pending (batch s) @ takeWhile (\<lambda>op. r op = None) (g (k, h))
             \<and> fst (fn k h s) = map_option (refusal r) (find (\<lambda>op. r op \<noteq> None) (g (k, h)))"
      and r: "refuses (batch s) = r"
  shows "refuses (batch (snd (traverse fn kvs s))) = r
         \<and> pending (batch (snd (traverse fn kvs s)))
             = pending (batch s) @ takeWhile (\<lambda>op. r op = None) (concat (map g kvs))
         \<and> fst (traverse fn kvs s)
             = map_option (refusal r) (find (\<lambda>op. r op \<noteq> None) (concat (map g kvs)))"
  using r
proof (induction kvs arbitrary: s)
  case Nil
  then show ?case by simp
next
  case (Cons kv kvs)
  note st = step [OF Cons.prems, of "fst kv" "snd kv"]
  obtain e s1 where f: "fn (fst kv) (snd kv) s = (e, s1)" by (cases "fn (fst kv) (snd kv) s")
  show ?case
  proof (cases "find (\<lambda>op. r op \<noteq> None) (g kv)")
    case None
    then have all: "\<forall>op \<in> set (g kv). r op = None" by (auto simp: find_None_iff)
    have e: "e = None" using st f None by simp
    have s1: "refuses (batch s1) = r" "pending (batch s1) = pending (batch s) @ g kv"
      using st f all by (simp_all add: takeWhile_eq_all_conv [THEN iffD2])
    have tw: "takeWhile (\<lambda>op. r op = None) (g kv @ concat (map g kvs))
                = g kv @ takeWhile (\<lambda>op. r op = None) (concat (map g kvs))"
      using all by (simp add: takeWhile_append2)
    show ?thesis
      using Cons.IH [OF s1(1)] s1(2) tw None
      by (simp add: f e find_append_first)
  next
    case (Some op)
    then have ex: "op \<in> set (g kv)" "r op \<noteq> None"
      by (auto simp: find_Some_iff)
    have e: "e = Some (refusal r op)" using st f Some by simp
    have tw: "takeWhile (\<lambda>op. r op = None) (g kv @ concat (map g kvs))
                = takeWhile (\<lambda>op. r op = None) (g kv)"
      using ex by (intro takeWhile_append1 [of op]) auto
    show ?thesis
      using st f tw Some by (simp add: e find_append_first)
  qed
qed

lemma deleteOrphans_fn_refusing:
  "refuses (batch (snd (deleteOrphans_fn p k h s))) = refuses (batch s)
   \<and> pending (batch (snd (deleteOrphans_fn p k h s)))
       = pending (batch s) @ takeWhile (\<lambda>op. refuses (batch s) op = None) (deleteOrphans_ops p (k, h))
   \<and> fst (deleteOrphans_fn p k h s)
       = map_option (refusal (refuses (batch s)))
           (find (\<lambda>op. refuses (batch s) op \<noteq> None) (deleteOrphans_ops p (k, h)))"
  by (auto simp: deleteOrphans_fn_def deleteOrphans_ops_def batch_Delete_def batch_Set_def
        saveOrphan_def refusal_def Let_def word_sless_alt
      split: prod.splits option.splits)

lemma deleteOrphans_refusing:
  "refuses (batch (snd (deleteOrphans v s))) = refuses (batch s)
   \<and> pending (batch (snd (deleteOrphans v s)))
       = pending (batch s)
         @ takeWhile (\<lambda>op. refuses (batch s) op = None)
             (concat (map (deleteOrphans_ops (getPreviousVersion v s))
                        (IteratePrefix (db s) (orphanVersionPrefix v))))
   \<and> fst (deleteOrphans v s)
       = map_option (refusal (refuses (batch s)))
           (find (\<lambda>op. refuses (batch s) op \<noteq> None)
              (concat (map (deleteOrphans_ops (getPreviousVersion v s))
                         (IteratePrefix (db s) (orphanVersionPrefix v)))))"
  unfolding deleteOrphans_def traverseOrphansVersion_def traversePrefix_def Let_def
  by (rule traverse_refusing
        [where fn = "deleteOrphans_fn (getPreviousVersion v s)"
           and g = "deleteOrphans_ops (getPreviousVersion v s)"])
     (simp_all add: deleteOrphans_fn_refusing)

lemma eq_takeWhile_conv: "(xs = takeWhile P xs) = (\<forall>x \<in> set xs. P x)"
  by (metis takeWhile_eq_all_conv)

lemma deleteRoot_effect:
  "(chk \<and> version = fst (getLatestVersion s)
      \<longrightarrow> fst (deleteRoot version chk s) = Some ErrTriedToDeleteLatest
          \<and> pending (batch (snd (deleteRoot version chk s))) = pending (batch s))
   \<and> (\<not> (chk \<and> version = fst (getLatestVersion s))
      \<longrightarrow> (refuses (batch s) (OpDelete (rootKey version)) = None
             \<longrightarrow> fst (deleteRoot version chk s) = None
                 \<and> pending (batch (snd (deleteRoot version chk s)))
                     = pending (batch s) @ [OpDelete (rootKey version)])
          \<and> (\<forall>e. refuses (batch s) (OpDelete (rootKey version)) = Some e
             \<longrightarrow> fst (deleteRoot version chk s) = Some (ErrBackend e)
                 \<and> pending (batch (snd (deleteRoot version chk s))) = pending (batch s)))"
  by (auto simp: deleteRoot_def Let_def batch_Delete_def getLatestVersion_def
      split: prod.splits option.splits)

lemma DeleteVersion_refusing:
  assumes rd: "readers (versionReaders ndb) version = 0"
  shows "(let ops = concat (map (deleteOrphans_ops (getPreviousVersion version ndb))
                                  (IteratePrefix (db ndb) (orphanVersionPrefix version)));
               stop = (chk \<and> version = fst (getLatestVersion ndb));
               all = (if stop then ops else ops @ [OpDelete (rootKey version)]);
               res = DeleteVersion version chk ndb
           in pending (batch (snd res))
                = pending (batch ndb) @ takeWhile (\<lambda>op. refuses (batch ndb) op = None) all
              \<and> fst res = (case find (\<lambda>op. refuses (batch ndb) op \<noteq> None) all of
                             Some op \<Rightarrow> Some (refusal (refuses (batch ndb)) op)
                           | None \<Rightarrow> if stop then Some ErrTriedToDeleteLatest else None))"
proof -
  define ops where "ops = concat (map (deleteOrphans_ops (getPreviousVersion version ndb))
                                  (IteratePrefix (db ndb) (orphanVersionPrefix version)))"
  define r where "r = refuses (batch ndb)"
  obtain e1 s1 where d: "deleteOrphans version ndb = (e1, s1)"
    by (cases "deleteOrphans version ndb")
  have p: "refuses (batch s1) = r"
    "pending (batch s1) = pending (batch ndb) @ takeWhile (\<lambda>op. r op = None) ops"
    "e1 = map_option (refusal r) (find (\<lambda>op. r op \<noteq> None) ops)"
    using deleteOrphans_refusing [of version ndb] d by (simp_all add: ops_def r_def)
  have l: "fst (getLatestVersion s1) = fst (getLatestVersion ndb)"
    using deleteOrphans_frame [of version ndb] d by (intro getLatestVersion_cong) auto
  have dv: "DeleteVersion version chk ndb
              = (case e1 of Some e \<Rightarrow> (Some e, s1) | None \<Rightarrow> deleteRoot version chk s1)"
    using rd d by (simp add: DeleteVersion_def split: option.splits)
  show ?thesis
  proof (cases "find (\<lambda>op. r op \<noteq> None) ops")
    case (Some op)
    then have ex: "op \<in> set ops" "r op \<noteq> None" by (auto simp: find_Some_iff)
    have tw: "takeWhile (\<lambda>op. r op = None) (ops @ [OpDelete (rootKey version)])
                = takeWhile (\<lambda>op. r op = None) ops"
      using ex by (intro takeWhile_append1 [of op]) auto
    show ?thesis
      unfolding Let_def ops_def [symmetric] r_def [symmetric]
      using Some p tw by (simp add: dv find_append_first)
  next
    case None
    then have all: "\<forall>op \<in> set ops. r op = None" by (auto simp: find_None_iff)
    have e1: "e1 = None" using p(3) None by simp
    have p2: "pending (batch s1) = pending (batch ndb) @ ops"
      using p(2) all by (simp add: takeWhile_eq_all_conv [THEN iffD2])
    have tw: "takeWhile (\<lambda>op. r op = None) (ops @ [OpDelete (rootKey version)])
                = ops @ takeWhile (\<lambda>op. r op = None) [OpDelete (rootKey version)]"
      using all by (simp add: takeWhile_append2)
    have tw0: "takeWhile (\<lambda>op. r op = None) ops = ops"
      using all by (simp add: takeWhile_eq_all_conv [THEN iffD2])
    have dv': "DeleteVersion version chk ndb = deleteRoot version chk s1"
      by (simp add: dv e1)
    note dr = deleteRoot_effect [of chk version s1, unfolded l p(1) p2]
    show ?thesis
    proof (cases "chk \<and> version = fst (getLatestVersion ndb)")
      case True
      with dr None tw0 show ?thesis
        unfolding Let_def ops_def [symmetric] r_def [symmetric] dv'
        by (simp add: eq_takeWhile_conv)
    next
      case False
      show ?thesis
      proof (cases "r (OpDelete (rootKey version))")
        case None
        with dr False tw tw0 \<open>find (\<lambda>op. r op \<noteq> None) ops = None\<close> show ?thesis
          unfolding Let_def ops_def [symmetric] r_def [symmetric] dv'
          by (auto simp: find_append_first eq_takeWhile_conv)
      next
        case (Some e)
        with dr False tw tw0 \<open>find (\<lambda>op. r op \<noteq> None) ops = None\<close> show ?thesis
          unfolding Let_def ops_def [symmetric] r_def [symmetric] dv'
          by (auto simp: find_append_first refusal_def eq_takeWhile_conv)
      qed
    qed
  qed
qed

lemma takeWhile_find_split:
  assumes "xs = pre @ op # rest" "\<forall>x \<in> set pre. P x" "\<not> P op"
  shows "takeWhile P xs = pre" "find (\<lambda>x. \<not> P x) xs = Some op"
proof -
  show "takeWhile P xs = pre" using assms by (simp add: takeWhile_append2)
  have "find (\<lambda>x. \<not> P x) pre = None" using assms(2) by (simp add: find_None_iff)
  then show "find (\<lambda>x. \<not> P x) xs = Some op" using assms by (simp add: find_append_first)
qed

text \<open>
  Claim C3, as the code has it. When the reader count of the version is not zero,
  \<^verbatim>\<open>DeleteVersion\<close> returns an error and leaves the state as it was. When it is
  zero, the operations of the call are those on the orphans ending at the version and
  then, unless \<open>checkLatestVersion\<close> is set and the version is the latest, the
  deletion of the root record. When the batch accepts all of them, they are what the call
  adds to the batch, in that order; the call then succeeds or, when the check of the
  latest version stops it, returns that error after the operations on the orphans,
  without deleting the root record. When the batch refuses one of them, the call ends at
  the first one refused, with the error of the engine (as a panic when the operation is
  the rewrite of an orphan), and the operations before it stay in the batch. The
  deletion of the root record is the one operation after those on the orphans and
  deletes no node record: the node the root hash names is deleted only when an orphan
  ending at the version names it.
\<close>

theorem DeleteVersion_readers_orphans_root:
  "(readers (versionReaders ndb) version \<noteq> 0
      \<longrightarrow> DeleteVersion version chk ndb = (Some ErrActiveReaders, ndb))
   \<and> (readers (versionReaders ndb) version = 0
      \<longrightarrow> (let ops = concat (map (deleteOrphans_ops (getPreviousVersion version ndb))
                                  (IteratePrefix (db ndb) (orphanVersionPrefix version)));
               stop = (chk \<and> version = fst (getLatestVersion ndb));
               all = (if stop then ops else ops @ [OpDelete (rootKey version)]);
               res = DeleteVersion version chk ndb
           in ((\<forall>op \<in> set all. refuses (batch ndb) op = None)
                 \<longrightarrow> fst res = (if stop then Some ErrTriedToDeleteLatest else None)
                     \<and> pending (batch (snd res)) = pending (batch ndb) @ all)
              \<and> (\<forall>pre op rest e.
                    all = pre @ op # rest
                    \<and> (\<forall>x \<in> set pre. refuses (batch ndb) x = None)
                    \<and> refuses (batch ndb) op = Some e
                 \<longrightarrow> fst res = Some (case op of OpDelete k \<Rightarrow> ErrBackend e
                                      | OpSet k v \<Rightarrow> PanicErr (ErrBackend e))
                     \<and> pending (batch (snd res)) = pending (batch ndb) @ pre)))"
proof -
  have a: "readers (versionReaders ndb) version \<noteq> 0
      \<longrightarrow> DeleteVersion version chk ndb = (Some ErrActiveReaders, ndb)"
    by (simp add: DeleteVersion_def word_neq_0_conv)
  have b: "(let ops = concat (map (deleteOrphans_ops (getPreviousVersion version ndb))
                                  (IteratePrefix (db ndb) (orphanVersionPrefix version)));
               stop = (chk \<and> version = fst (getLatestVersion ndb));
               all = (if stop then ops else ops @ [OpDelete (rootKey version)]);
               res = DeleteVersion version chk ndb
           in ((\<forall>op \<in> set all. refuses (batch ndb) op = None)
                 \<longrightarrow> fst res = (if stop then Some ErrTriedToDeleteLatest else None)
                     \<and> pending (batch (snd res)) = pending (batch ndb) @ all)
              \<and> (\<forall>pre op rest e.
                    all = pre @ op # rest
                    \<and> (\<forall>x \<in> set pre. refuses (batch ndb) x = None)
                    \<and> refuses (batch ndb) op = Some e
                 \<longrightarrow> fst res = Some (case op of OpDelete k \<Rightarrow> ErrBackend e
                                      | OpSet k v \<Rightarrow> PanicErr (ErrBackend e))
                     \<and> pending (batch (snd res)) = pending (batch ndb) @ pre))"
    if rd: "readers (versionReaders ndb) version = 0"
  proof -
    define ops where "ops = concat (map (deleteOrphans_ops (getPreviousVersion version ndb))
                                  (IteratePrefix (db ndb) (orphanVersionPrefix version)))"
    define stop where "stop = (chk \<and> version = fst (getLatestVersion ndb))"
    define all where "all = (if stop then ops else ops @ [OpDelete (rootKey version)])"
    define res where "res = DeleteVersion version chk ndb"
    define r where "r = refuses (batch ndb)"
    have g: "pending (batch (snd res)) = pending (batch ndb) @ takeWhile (\<lambda>op. r op = None) all"
      "fst res = (case find (\<lambda>op. \<not> r op = None) all of
                             Some op \<Rightarrow> Some (refusal r op)
                           | None \<Rightarrow> if stop then Some ErrTriedToDeleteLatest else None)"
      using DeleteVersion_refusing [OF rd, of chk]
      unfolding Let_def ops_def [symmetric] stop_def [symmetric] all_def [symmetric]
        res_def [symmetric] r_def [symmetric] by simp_all
    have c1: "fst res = (if stop then Some ErrTriedToDeleteLatest else None)
                \<and> pending (batch (snd res)) = pending (batch ndb) @ all"
      if "\<forall>op \<in> set all. r op = None"
    proof -
      have "find (\<lambda>op. \<not> r op = None) all = None" using that by (simp add: find_None_iff)
      moreover have "takeWhile (\<lambda>op. r op = None) all = all"
        using that by (simp add: takeWhile_eq_all_conv [THEN iffD2])
      ultimately show ?thesis using g by simp
    qed
    have c2: "fst res = Some (case op of OpDelete k \<Rightarrow> ErrBackend e
                                      | OpSet k v \<Rightarrow> PanicErr (ErrBackend e))
                \<and> pending (batch (snd res)) = pending (batch ndb) @ pre"
      if "all = pre @ op # rest" "\<forall>x \<in> set pre. r x = None" "r op = Some e"
      for pre op rest e
    proof -
      have "\<not> r op = None" using that(3) by simp
      from takeWhile_find_split [OF that(1) that(2) this]
      show ?thesis using g that(3) by (simp add: refusal_def split: batch_op.splits)
    qed
    show ?thesis
      unfolding Let_def ops_def [symmetric] stop_def [symmetric] all_def [symmetric]
        res_def [symmetric] r_def [symmetric]
      using c1 c2 by blast
  qed
  from a b show ?thesis by blast
qed

text \<open>
  A store with the roots of versions 1 and 2, whose root nodes have the hashes
  \<open>hashA\<close> and \<open>hashB\<close>; version 2 replaced the root node of version 1, which is
  the orphan with the lifetime from 1 to 1.
\<close>

definition hashA :: bytes where "hashA = replicate 32 0xAA"
definition hashB :: bytes where "hashB = replicate 32 0xBB"

definition store1 :: "(bytes \<times> bytes) list" where
  "store1 = [(nodeKey hashA, [1]), (nodeKey hashB, [2]), (orphanKey 1 1 hashA, hashA),
             (rootKey 1, hashA), (rootKey 2, hashB)]"

lemmas eval_keys2 = nodeKey_def orphanKey_def rootKey_def be64_def rootScan_def de64_def
  orphanScan_def orphanVersionPrefix_def metadataKey_def

lemmas eval_store = newNodeDB_def db_Get_def getLatestVersion_def getPreviousVersion_def
  db_ReverseIterator_def db_Iterator_def IteratePrefix_def

lemma s1_latest: "fst (getLatestVersion (newNodeDB store1 (\<lambda>_. None) 0)) = 2"
  by (simp add: store1_def eval_store eval_keys2)

lemma s1_prev: "getPreviousVersion 1 (newNodeDB store1 (\<lambda>_. None) 0) = 0"
  by (simp add: store1_def eval_store eval_keys2)

lemma s1_orph1: "IteratePrefix store1 (orphanVersionPrefix 1) = [(orphanKey 1 1 hashA, hashA)]"
  by (simp add: store1_def eval_store eval_keys2)

lemma s1_orph2: "IteratePrefix store1 (orphanVersionPrefix 2) = []"
  by (simp add: store1_def eval_store eval_keys2)


lemma s1_db: "db (newNodeDB store1 r c) = store1" "accepting (newNodeDB store1 (\<lambda>_. None) c)"
  "versionReaders (newNodeDB store1 r c) = []" "pending (batch (newNodeDB store1 r c)) = []"
  by (simp_all add: newNodeDB_def accepting_def)

lemma s1_versions:
  "fst (getLatestVersion (newNodeDB store1 r c)) = 2"
  "getPreviousVersion 1 (newNodeDB store1 r c) = 0"
  by (simp_all add: store1_def eval_store eval_keys2)

text \<open>
  C3 on that store: version 1 with two readers, version 1 without readers, version 2
  without the check of the latest version, and version 1 on a batch whose engine refuses
  the deletion of the node record of \<open>hashA\<close>.
\<close>

theorem DeleteVersion_readers_orphans_root_witness:
  "DeleteVersion 1 True ((newNodeDB store1 (\<lambda>_. None) 0)\<lparr>versionReaders := [(1, 2)]\<rparr>)
     = (Some ErrActiveReaders, (newNodeDB store1 (\<lambda>_. None) 0)\<lparr>versionReaders := [(1, 2)]\<rparr>)
   \<and> fst (DeleteVersion 1 True (newNodeDB store1 (\<lambda>_. None) 0)) = None
   \<and> pending (batch (snd (DeleteVersion 1 True (newNodeDB store1 (\<lambda>_. None) 0))))
       = [OpDelete (orphanKey 1 1 hashA), OpDelete (nodeKey hashA), OpDelete (rootKey 1)]
   \<and> fst (DeleteVersion 2 False (newNodeDB store1 (\<lambda>_. None) 0)) = None
   \<and> pending (batch (snd (DeleteVersion 2 False (newNodeDB store1 (\<lambda>_. None) 0))))
       = [OpDelete (rootKey 2)]
   \<and> fst (DeleteVersion 1 True
            (newNodeDB store1 (\<lambda>op. if op = OpDelete (nodeKey hashA) then Some 5 else None) 0))
       = Some (ErrBackend 5)
   \<and> pending (batch (snd (DeleteVersion 1 True
            (newNodeDB store1 (\<lambda>op. if op = OpDelete (nodeKey hashA) then Some 5 else None) 0))))
       = [OpDelete (orphanKey 1 1 hashA)]"
proof -
  let ?r = "\<lambda>op. if op = OpDelete (nodeKey hashA) then Some (5 :: nat) else None"
  have b: "refuses (batch (newNodeDB store1 r c)) = r" "pending (batch (newNodeDB store1 r c)) = []"
    "versionReaders (newNodeDB store1 r c) = []" for r c
    by (simp_all add: newNodeDB_def)
  have k: "orphanKey 1 1 hashA \<noteq> nodeKey hashA"
    by (simp add: orphanKey_def nodeKey_def)
  have "\<forall>pre op rest e.
          [OpDelete (orphanKey 1 1 hashA), OpDelete (nodeKey hashA), OpDelete (rootKey 1)]
            = pre @ op # rest
          \<and> (\<forall>x \<in> set pre. ?r x = None) \<and> ?r op = Some e
          \<longrightarrow> fst (DeleteVersion 1 True (newNodeDB store1 ?r 0))
                = Some (case op of OpDelete k \<Rightarrow> ErrBackend e | OpSet k v \<Rightarrow> PanicErr (ErrBackend e))
              \<and> pending (batch (snd (DeleteVersion 1 True (newNodeDB store1 ?r 0)))) = pre"
    using DeleteVersion_readers_orphans_root [of "newNodeDB store1 ?r 0" 1 True]
    by (simp add: s1_db b s1_versions s1_orph1 readers_def deleteOrphans_ops_def
          orphanScan_orphanKey word_sless_alt Let_def)
  from this [rule_format, of "[OpDelete (orphanKey 1 1 hashA)]" "OpDelete (nodeKey hashA)"
               "[OpDelete (rootKey 1)]" 5]
  have r: "fst (DeleteVersion 1 True (newNodeDB store1 ?r 0)) = Some (ErrBackend 5)
        \<and> pending (batch (snd (DeleteVersion 1 True (newNodeDB store1 ?r 0))))
            = [OpDelete (orphanKey 1 1 hashA)]"
    using k by simp
  have a: "DeleteVersion 1 True ((newNodeDB store1 (\<lambda>_. None) 0)\<lparr>versionReaders := [(1, 2)]\<rparr>)
     = (Some ErrActiveReaders, (newNodeDB store1 (\<lambda>_. None) 0)\<lparr>versionReaders := [(1, 2)]\<rparr>)
   \<and> fst (DeleteVersion 1 True (newNodeDB store1 (\<lambda>_. None) 0)) = None
   \<and> pending (batch (snd (DeleteVersion 1 True (newNodeDB store1 (\<lambda>_. None) 0))))
       = [OpDelete (orphanKey 1 1 hashA), OpDelete (nodeKey hashA), OpDelete (rootKey 1)]
   \<and> fst (DeleteVersion 2 False (newNodeDB store1 (\<lambda>_. None) 0)) = None
   \<and> pending (batch (snd (DeleteVersion 2 False (newNodeDB store1 (\<lambda>_. None) 0))))
       = [OpDelete (rootKey 2)]"
    using DeleteVersion_readers_orphans_root
            [of "(newNodeDB store1 (\<lambda>_. None) 0)\<lparr>versionReaders := [(1, 2)]\<rparr>" 1 True]
          DeleteVersion_readers_orphans_root [of "newNodeDB store1 (\<lambda>_. None) 0" 1 True]
          DeleteVersion_readers_orphans_root [of "newNodeDB store1 (\<lambda>_. None) 0" 2 False]
    by (simp add: s1_db b s1_versions s1_orph1 s1_orph2 readers_def deleteOrphans_ops_def
          orphanScan_orphanKey word_sless_alt Let_def)
  from a r show ?thesis by simp
qed

text \<open>
  C3 as the spec states it fails twice on that store. Deleting version 2, the latest, with
  the check set and no reader returns an error and does not delete the root record. And
  deleting version 1 deletes the node that the root of version 1 names, through the
  orphan record of that node.
\<close>

theorem DeleteVersion_latest_counterexample:
  "readers (versionReaders (newNodeDB store1 (\<lambda>_. None) 0)) 2 = 0
   \<and> fst (DeleteVersion 2 True (newNodeDB store1 (\<lambda>_. None) 0)) = Some ErrTriedToDeleteLatest
   \<and> OpDelete (rootKey 2)
       \<notin> set (pending (batch (snd (DeleteVersion 2 True (newNodeDB store1 (\<lambda>_. None) 0)))))
   \<and> readers (versionReaders (newNodeDB store1 (\<lambda>_. None) 0)) 1 = 0
   \<and> db_Get (db (newNodeDB store1 (\<lambda>_. None) 0)) (rootKey 1) = Some hashA
   \<and> fst (DeleteVersion 1 True (newNodeDB store1 (\<lambda>_. None) 0)) = None
   \<and> OpDelete (nodeKey hashA)
       \<in> set (pending (batch (snd (DeleteVersion 1 True (newNodeDB store1 (\<lambda>_. None) 0)))))"
  using DeleteVersion_effect [of "newNodeDB store1 (\<lambda>_. None) 0" 2 True]
        DeleteVersion_effect [of "newNodeDB store1 (\<lambda>_. None) 0" 1 True]
  unfolding s1_db
  by (simp add: s1_db s1_latest s1_prev s1_orph1 s1_orph2 readers_def deleteOrphans_ops_def
        orphanScan_orphanKey word_sless_alt Let_def)
     (simp add: db_Get_def store1_def eval_keys2)

subsection \<open>Non-membership proofs\<close>

lemma locate_sorted:
  "sorted_wrt (<) (map fst kvs) \<Longrightarrow>
   locate kvs k = (int (length (filter (\<lambda>kv. fst kv < k) kvs)), map_of kvs k)"
proof (induction kvs)
  case Nil
  show ?case by simp
next
  case (Cons kv kvs)
  then have gt: "\<forall>x \<in> set kvs. fst kv < fst x" and s: "sorted_wrt (<) (map fst kvs)"
    by auto
  show ?case
  proof (cases "k = fst kv")
    case True
    with gt have "filter (\<lambda>x. fst x < k) kvs = []" by (auto simp: filter_empty_conv)
    with True show ?thesis by (cases kv) simp
  next
    case False
    show ?thesis
    proof (cases "k < fst kv")
      case True
      with gt have a: "filter (\<lambda>x. fst x < k) kvs = []" by (fastforce simp: filter_empty_conv)
      from True gt have "k \<notin> fst ` set kvs" by auto
      then have "map_of kvs k = None" by (simp add: map_of_eq_None_iff)
      with True False a show ?thesis by (cases kv) auto
    next
      case f: False
      with False have "fst kv < k" by simp
      with False f Cons.IH [OF s] show ?thesis by (cases kv) (auto split: prod.splits)
    qed
  qed
qed

lemma getNonMembershipProof_effect:
  assumes srt: "sorted_wrt (<) (map fst (pairs t))"
  shows
  "(k \<in> fst ` set (pairs t) \<longrightarrow> getNonMembershipProof t k = Inl ErrKeyInState)
   \<and> (k \<notin> fst ` set (pairs t) \<longrightarrow>
        (let idx = length (filter (\<lambda>kv. fst kv < k) (pairs t))
         in (\<forall>p. getNonMembershipProof t k = Inr p \<longrightarrow>
                NonExKey p = k
                \<and> (NonExLeft p \<noteq> None \<longleftrightarrow> 1 \<le> idx)
                \<and> (\<forall>l. NonExLeft p = Some l \<longrightarrow> ExKey l = fst (pairs t ! (idx - 1)))
                \<and> (NonExRight p \<noteq> None \<longleftrightarrow> idx < length (pairs t))
                \<and> (\<forall>r. NonExRight p = Some r \<longrightarrow> ExKey r = fst (pairs t ! idx))
                \<and> (pairs t \<noteq> [] \<longrightarrow> NonExLeft p \<noteq> None \<or> NonExRight p \<noteq> None))
            \<and> ((\<forall>kv \<in> set (pairs t). \<exists>p. GetWithProof t (fst kv) = Inr (Some (snd kv), p)
                                              \<and> length (Leaves p) = 1)
                 \<longrightarrow> (\<exists>p. getNonMembershipProof t k = Inr p))))"
proof -
  define idx where "idx = length (filter (\<lambda>kv. fst kv < k) (pairs t))"
  have loc: "GetWithIndex t k = (int idx, map_of (pairs t) k)"
    unfolding GetWithIndex_def idx_def by (rule locate_sorted [OF srt])
  have le: "idx \<le> length (pairs t)" unfolding idx_def by simp
  have present: "getNonMembershipProof t k = Inl ErrKeyInState" if "k \<in> fst ` set (pairs t)"
  proof -
    from that have "map_of (pairs t) k \<noteq> None" by (simp add: map_of_eq_None_iff)
    then show ?thesis by (auto simp: getNonMembershipProof_def loc)
  qed
  have absent: "map_of (pairs t) k = None" if "k \<notin> fst ` set (pairs t)"
    using that by (simp add: map_of_eq_None_iff)
  have lk: "fst (GetByIndex t (int idx - 1)) = Some (fst (pairs t ! (idx - 1)))" if "1 \<le> idx"
    using that le by (auto simp: GetByIndex_def nat_diff_distrib' )
  have rk: "fst (GetByIndex t (int idx)) = (if idx < length (pairs t) then Some (fst (pairs t ! idx)) else None)"
    by (auto simp: GetByIndex_def)
  have cx: "createExistenceProof t a = Inr e \<Longrightarrow> ExKey e = a" for a e
    by (auto simp: createExistenceProof_def convertExistenceProof_def
          split: sum.splits option.splits if_splits)
  have shape: "NonExKey p = k
                \<and> (NonExLeft p \<noteq> None \<longleftrightarrow> 1 \<le> idx)
                \<and> (\<forall>l. NonExLeft p = Some l \<longrightarrow> ExKey l = fst (pairs t ! (idx - 1)))
                \<and> (NonExRight p \<noteq> None \<longleftrightarrow> idx < length (pairs t))
                \<and> (\<forall>r. NonExRight p = Some r \<longrightarrow> ExKey r = fst (pairs t ! idx))
                \<and> (pairs t \<noteq> [] \<longrightarrow> NonExLeft p \<noteq> None \<or> NonExRight p \<noteq> None)"
    if ab: "k \<notin> fst ` set (pairs t)" and res: "getNonMembershipProof t k = Inr p" for p
  proof (cases "1 \<le> idx")
    case True
    with res absent [OF ab] lk [OF True] rk cx
    show ?thesis
      by (auto simp: getNonMembershipProof_def loc slice_of_def
            split: sum.splits option.splits if_splits)
  next
    case False
    then have z: "idx = 0" by simp
    with res absent [OF ab] rk cx
    show ?thesis
      by (auto simp: getNonMembershipProof_def loc slice_of_def
            split: sum.splits option.splits if_splits)
  qed
  have returns: "\<exists>p. getNonMembershipProof t k = Inr p"
    if ab: "k \<notin> fst ` set (pairs t)"
      and pr: "\<forall>kv \<in> set (pairs t). \<exists>p. GetWithProof t (fst kv) = Inr (Some (snd kv), p)
                                              \<and> length (Leaves p) = 1"
  proof -
    have ok: "\<exists>e. createExistenceProof t (fst (pairs t ! i)) = Inr e" if "i < length (pairs t)" for i
    proof -
      from that have "pairs t ! i \<in> set (pairs t)" by simp
      with pr obtain p where "GetWithProof t (fst (pairs t ! i)) = Inr (Some (snd (pairs t ! i)), p)"
        "length (Leaves p) = 1" by blast
      then show ?thesis by (simp add: createExistenceProof_def convertExistenceProof_def)
    qed
    show ?thesis
    proof (cases "1 \<le> idx")
      case True
      then have "idx - 1 < length (pairs t)" using le by simp
      from ok [OF this] obtain l where l: "createExistenceProof t (fst (pairs t ! (idx - 1))) = Inr l"
        by blast
      show ?thesis
      proof (cases "idx < length (pairs t)")
        case r: True
        from ok [OF r] obtain e where "createExistenceProof t (fst (pairs t ! idx)) = Inr e" by blast
        with l True r absent [OF ab] lk [OF True] rk show ?thesis
          by (simp add: getNonMembershipProof_def loc slice_of_def)
      next
        case r: False
        with l True absent [OF ab] lk [OF True] rk show ?thesis
          by (simp add: getNonMembershipProof_def loc slice_of_def)
      qed
    next
      case False
      then have z: "idx = 0" by simp
      show ?thesis
      proof (cases "idx < length (pairs t)")
        case r: True
        from ok [OF r] obtain e where "createExistenceProof t (fst (pairs t ! idx)) = Inr e" by blast
        with z r absent [OF ab] rk show ?thesis
          by (simp add: getNonMembershipProof_def loc slice_of_def)
      next
        case r: False
        with z absent [OF ab] rk show ?thesis
          by (simp add: getNonMembershipProof_def loc slice_of_def)
      qed
    qed
  qed
  from present shape returns show ?thesis
    unfolding Let_def idx_def [symmetric] by blast
qed

text \<open>
  Claim C7. For a tree whose pairs are in ascending order of the keys and a key \<open>k\<close>:
  the construction of the non-membership proof returns an error when \<open>k\<close> is in the
  tree. When \<open>k\<close> is not in the tree, let \<open>idx\<close> be the index at which it would be
  inserted, the number of keys below it. A proof that is returned has the key \<open>k\<close>, a
  left existence proof exactly when \<open>idx\<close> is at least 1, built for the key at
  \<open>idx - 1\<close>, and a right existence proof exactly when there is a key at \<open>idx\<close>,
  built for that key; for a tree that is not empty one of the two is there. And a proof
  is returned when the tree gives, for each of its keys, the value and a range proof with
  one leaf.
\<close>

theorem getNonMembershipProof_neighbours:
  assumes srt: "sorted_wrt (<) (map fst (pairs t))"
  shows
  "(k \<in> fst ` set (pairs t) \<longrightarrow> getNonMembershipProof t k = Inl ErrKeyInState)
   \<and> (k \<notin> fst ` set (pairs t) \<longrightarrow>
        (let idx = length (filter (\<lambda>kv. fst kv < k) (pairs t))
         in (\<forall>p. getNonMembershipProof t k = Inr p \<longrightarrow>
                NonExKey p = k
                \<and> (NonExLeft p \<noteq> None \<longleftrightarrow> 1 \<le> idx)
                \<and> (\<forall>l. NonExLeft p = Some l \<longrightarrow> ExKey l = fst (pairs t ! (idx - 1)))
                \<and> (NonExRight p \<noteq> None \<longleftrightarrow> idx < length (pairs t))
                \<and> (\<forall>r. NonExRight p = Some r \<longrightarrow> ExKey r = fst (pairs t ! idx))
                \<and> (pairs t \<noteq> [] \<longrightarrow> NonExLeft p \<noteq> None \<or> NonExRight p \<noteq> None))
            \<and> ((\<forall>kv \<in> set (pairs t). \<exists>p. GetWithProof t (fst kv) = Inr (Some (snd kv), p)
                                              \<and> length (Leaves p) = 1)
                 \<longrightarrow> (\<exists>p. getNonMembershipProof t k = Inr p))))"
  by (rule getNonMembershipProof_effect [OF srt])

text \<open>A tree with the keys 1 and 3, whose range proofs have one leaf and no inner step.\<close>

definition tree13 :: ImmutableTree where
  "tree13 =
     \<lparr>pairs = [([1], [10]), ([3], [30])],
      GetWithProof =
        (\<lambda>k. Inr (map_of [([1], [10]), ([3], [30])] k,
                  \<lparr>LeftPath = [],
                   Leaves = [\<lparr>LeafKey = k, LeafValueHash = [], LeafVersion = 1\<rparr>]\<rparr>))\<rparr>"

lemmas eval_proof = getNonMembershipProof_def GetWithIndex_def GetByIndex_def
  createExistenceProof_def convertExistenceProof_def slice_of_def tree13_def

text \<open>
  C7 on that tree: the key 1 is there; the key 2 has both neighbours, the key 0 the right
  one only and the key 4 the left one only.
\<close>

theorem getNonMembershipProof_neighbours_witness:
  "sorted_wrt (<) (map fst (pairs tree13))
   \<and> getNonMembershipProof tree13 [1] = Inl ErrKeyInState
   \<and> (\<exists>p. getNonMembershipProof tree13 [2] = Inr p \<and> NonExKey p = [2]
            \<and> map_option ExKey (NonExLeft p) = Some [1]
            \<and> map_option ExKey (NonExRight p) = Some [3])
   \<and> (\<exists>p. getNonMembershipProof tree13 [0] = Inr p \<and> NonExKey p = [0]
            \<and> NonExLeft p = None
            \<and> map_option ExKey (NonExRight p) = Some [1])
   \<and> (\<exists>p. getNonMembershipProof tree13 [4] = Inr p \<and> NonExKey p = [4]
            \<and> map_option ExKey (NonExLeft p) = Some [3]
            \<and> NonExRight p = None)"
proof -
  have srt: "sorted_wrt (<) (map fst (pairs tree13))" by (simp add: tree13_def)
  have a: "getNonMembershipProof tree13 [1] = Inl ErrKeyInState"
    using getNonMembershipProof_neighbours [OF srt, of "[1]"] by (simp add: tree13_def)
  have pr: "\<forall>kv \<in> set (pairs tree13). \<exists>p. GetWithProof tree13 (fst kv) = Inr (Some (snd kv), p)
                                              \<and> length (Leaves p) = 1"
    by (simp add: tree13_def)
  have b: "\<exists>p. getNonMembershipProof tree13 [2] = Inr p \<and> NonExKey p = [2]
            \<and> map_option ExKey (NonExLeft p) = Some [1]
            \<and> map_option ExKey (NonExRight p) = Some [3]"
  proof -
    have ab: "[2] \<notin> fst ` set (pairs tree13)" by (simp add: tree13_def)
    have i: "length (filter (\<lambda>kv. fst kv < [2]) (pairs tree13)) = 1" by (simp add: tree13_def)
    from getNonMembershipProof_neighbours [OF srt, of "[2]"] ab pr
    obtain p where p: "getNonMembershipProof tree13 [2] = Inr p" unfolding Let_def by blast
    with getNonMembershipProof_neighbours [OF srt, of "[2]"] ab i
    have "NonExKey p = [2]" "NonExLeft p \<noteq> None" "NonExRight p \<noteq> None"
      "\<forall>l. NonExLeft p = Some l \<longrightarrow> ExKey l = [1]"
      "\<forall>r. NonExRight p = Some r \<longrightarrow> ExKey r = [3]"
      unfolding Let_def by (simp_all add: tree13_def)
    with p show ?thesis by auto
  qed
  have c: "\<exists>p. getNonMembershipProof tree13 [0] = Inr p \<and> NonExKey p = [0]
            \<and> NonExLeft p = None
            \<and> map_option ExKey (NonExRight p) = Some [1]"
  proof -
    have ab: "[0] \<notin> fst ` set (pairs tree13)" by (simp add: tree13_def)
    have i: "length (filter (\<lambda>kv. fst kv < [0]) (pairs tree13)) = 0" by (simp add: tree13_def)
    from getNonMembershipProof_neighbours [OF srt, of "[0]"] ab pr
    obtain p where p: "getNonMembershipProof tree13 [0] = Inr p" unfolding Let_def by blast
    with getNonMembershipProof_neighbours [OF srt, of "[0]"] ab i
    have "NonExKey p = [0]" "NonExLeft p = None" "NonExRight p \<noteq> None"
      "\<forall>r. NonExRight p = Some r \<longrightarrow> ExKey r = [1]"
      unfolding Let_def by (simp_all add: tree13_def)
    with p show ?thesis by auto
  qed
  have d: "\<exists>p. getNonMembershipProof tree13 [4] = Inr p \<and> NonExKey p = [4]
            \<and> map_option ExKey (NonExLeft p) = Some [3]
            \<and> NonExRight p = None"
  proof -
    have ab: "[4] \<notin> fst ` set (pairs tree13)" by (simp add: tree13_def)
    have i: "length (filter (\<lambda>kv. fst kv < [4]) (pairs tree13)) = 2" by (simp add: tree13_def)
    from getNonMembershipProof_neighbours [OF srt, of "[4]"] ab pr
    obtain p where p: "getNonMembershipProof tree13 [4] = Inr p" unfolding Let_def by blast
    with getNonMembershipProof_neighbours [OF srt, of "[4]"] ab i
    have "NonExKey p = [4]" "NonExLeft p \<noteq> None" "NonExRight p = None"
      "\<forall>l. NonExLeft p = Some l \<longrightarrow> ExKey l = [3]"
      unfolding Let_def by (simp_all add: tree13_def)
    with p show ?thesis by auto
  qed
  from srt a b c d show ?thesis by blast
qed

subsection \<open>Deleting a range of versions\<close>

text \<open>
  Two relations between the state before and after a step. \<open>extends\<close>: the step
  added the given operations to the batch and left the engine, the store, the cached
  latest version and the reader counts alone. \<open>shrinks\<close>: a key that was in neither
  cache before is in neither cache after.
\<close>

definition extends :: "nodeDB \<Rightarrow> batch_op list \<Rightarrow> nodeDB \<Rightarrow> bool" where
  "extends s ops s' =
     (pending (batch s') = pending (batch s) @ ops \<and> refuses (batch s') = refuses (batch s)
      \<and> db s' = db s \<and> latestVersion s' = latestVersion s
      \<and> versionReaders s' = versionReaders s)"

definition shrinks :: "nodeDB \<Rightarrow> nodeDB \<Rightarrow> bool" where
  "shrinks s s' =
     ((\<forall>h. map_of (nodeCache s) h = None \<longrightarrow> map_of (nodeCache s') h = None)
      \<and> (\<forall>k. map_of (fastNodeCache s) k = None \<longrightarrow> map_of (fastNodeCache s') k = None))"

text \<open>
  What the spec says of an orphan whose last version is in the range deleted: the orphan
  record is deleted; then the node record is deleted when the first version of the orphan
  is after the predecessor, and otherwise the orphan is written again with the
  predecessor as its last version.
\<close>

definition DeleteVersionsRange_ops :: "int64 \<Rightarrow> bytes \<times> bytes \<Rightarrow> batch_op list" where
  "DeleteVersionsRange_ops predecessor kv =
     (let (toVersion, fromVersion) = orphanScan (fst kv)
      in OpDelete (fst kv)
         # (if predecessor <s fromVersion
            then [OpDelete (nodeKey (snd kv))]
            else [OpSet (orphanKey fromVersion predecessor (snd kv)) (snd kv)]))"

lemma extends_refl: "extends s [] s"
  by (simp add: extends_def)

lemma extends_trans: "extends s a s1 \<Longrightarrow> extends s1 b s2 \<Longrightarrow> extends s (a @ b) s2"
  by (simp add: extends_def)

lemma extends_accepting: "extends s ops s' \<Longrightarrow> accepting s \<Longrightarrow> accepting s'"
  by (simp add: extends_def accepting_def)

lemma shrinks_refl: "shrinks s s"
  by (simp add: shrinks_def)

lemma shrinks_trans: "shrinks s s1 \<Longrightarrow> shrinks s1 s2 \<Longrightarrow> shrinks s s2"
  by (simp add: shrinks_def)

lemma shrinks_uncacheNode: "shrinks s (uncacheNode h s)"
  by (auto simp: shrinks_def uncacheNode_def delete_conv' split: option.splits)

lemma shrinks_uncacheFastNode: "shrinks s (uncacheFastNode k s)"
  by (auto simp: shrinks_def uncacheFastNode_def delete_conv' split: option.splits)

lemma uncacheNode_gone: "map_of (nodeCache (uncacheNode h s)) h = None"
  by (auto simp: uncacheNode_def delete_conv' split: option.splits)

lemma uncacheFastNode_gone: "map_of (fastNodeCache (uncacheFastNode k s)) k = None"
  by (auto simp: uncacheFastNode_def delete_conv' split: option.splits)

lemma traverse_extends:
  assumes step: "\<And>k h s. accepting s \<Longrightarrow> (k, h) \<in> set kvs \<Longrightarrow>
             fst (fn k h s) = None \<and> extends s (g (k, h)) (snd (fn k h s))
             \<and> shrinks s (snd (fn k h s)) \<and> Q (k, h) (snd (fn k h s))"
      and stable: "\<And>kv s s'. Q kv s \<Longrightarrow> shrinks s s' \<Longrightarrow> Q kv s'"
      and acc: "accepting s"
  shows "fst (traverse fn kvs s) = None
         \<and> extends s (concat (map g kvs)) (snd (traverse fn kvs s))
         \<and> shrinks s (snd (traverse fn kvs s))
         \<and> (\<forall>kv \<in> set kvs. Q kv (snd (traverse fn kvs s)))"
  using step acc
proof (induction kvs arbitrary: s)
  case Nil
  show ?case by (simp add: extends_refl shrinks_refl)
next
  case (Cons kv kvs)
  have st: "fst (fn (fst kv) (snd kv) s) = None"
    "extends s (g kv) (snd (fn (fst kv) (snd kv) s))"
    "shrinks s (snd (fn (fst kv) (snd kv) s))"
    "Q kv (snd (fn (fst kv) (snd kv) s))"
    using Cons.prems(1) [OF Cons.prems(2), of "fst kv" "snd kv"] by simp_all
  define s1 where "s1 = snd (fn (fst kv) (snd kv) s)"
  have f: "fn (fst kv) (snd kv) s = (None, s1)"
    using st(1) by (simp add: s1_def prod_eq_iff)
  have acc1: "accepting s1" using st(2) Cons.prems(2) unfolding s1_def by (rule extends_accepting)
  have ih: "fst (traverse fn kvs s1) = None
         \<and> extends s1 (concat (map g kvs)) (snd (traverse fn kvs s1))
         \<and> shrinks s1 (snd (traverse fn kvs s1))
         \<and> (\<forall>kv \<in> set kvs. Q kv (snd (traverse fn kvs s1)))"
    by (rule Cons.IH) (use Cons.prems(1) acc1 in auto)
  have t: "traverse fn (kv # kvs) s = traverse fn kvs s1" by (simp add: f)
  have q: "Q kv (snd (traverse fn kvs s1))"
    using st(4) ih stable unfolding s1_def by blast
  show ?case
    unfolding t using ih q st(2,3) extends_trans [of s "g kv" s1] shrinks_trans [of s s1]
    unfolding s1_def by auto
qed

lemma DeleteVersionsRange_fn_step:
  assumes "accepting s"
  shows "fst (DeleteVersionsRange_fn p k h s) = None
         \<and> extends s (DeleteVersionsRange_ops p (k, h)) (snd (DeleteVersionsRange_fn p k h s))
         \<and> shrinks s (snd (DeleteVersionsRange_fn p k h s))
         \<and> (p <s snd (orphanScan k) \<longrightarrow>
               map_of (nodeCache (snd (DeleteVersionsRange_fn p k h s))) h = None
               \<and> map_of (fastNodeCache (snd (DeleteVersionsRange_fn p k h s))) k = None)"
proof (cases "p <s snd (orphanScan k)")
  case True
  have r: "DeleteVersionsRange_fn p k h s
        = (None, uncacheFastNode k (uncacheNode h
             (s\<lparr>batch := (batch s)\<lparr>pending := pending (batch s) @ [OpDelete k, OpDelete (nodeKey h)]\<rparr>\<rparr>)))"
    using assms True
    by (auto simp: DeleteVersionsRange_fn_def accepting_def batch_Delete_def Let_def
          split: prod.splits)
  have sh: "shrinks s (uncacheFastNode k (uncacheNode h
             (s\<lparr>batch := (batch s)\<lparr>pending := pending (batch s) @ [OpDelete k, OpDelete (nodeKey h)]\<rparr>\<rparr>)))"
    by (rule shrinks_trans [OF _ shrinks_uncacheFastNode],
        rule shrinks_trans [OF _ shrinks_uncacheNode]) (simp add: shrinks_def)
  show ?thesis
    using True sh
    by (auto simp: r extends_def DeleteVersionsRange_ops_def uncacheFastNode_gone
          uncacheNode_gone split: prod.splits)
next
  case False
  then have le: "\<not> p <s snd (orphanScan k)" .
  have r: "DeleteVersionsRange_fn p k h s
        = (None, s\<lparr>batch := (batch s)\<lparr>pending := pending (batch s)
             @ [OpDelete k, OpSet (orphanKey (snd (orphanScan k)) p h) h]\<rparr>\<rparr>)"
    using assms False
    by (auto simp: DeleteVersionsRange_fn_def accepting_def batch_Delete_def batch_Set_def
          saveOrphan_def Let_def split: prod.splits)
  show ?thesis
    using False
    by (auto simp: r extends_def shrinks_def DeleteVersionsRange_ops_def split: prod.splits)
qed

lemma set_IteratePrefix:
  "set (IteratePrefix d p) = {kv \<in> set d. has_prefix p (fst kv)}"
  by (auto simp: IteratePrefix_def)

lemma concat_map_split:
  "kv \<in> set kvs \<Longrightarrow> \<exists>a b. concat (map g kvs) = a @ g kv @ b"
proof -
  assume "kv \<in> set kvs"
  then obtain xs ys where "kvs = xs @ kv # ys" by (auto simp: in_set_conv_decomp)
  then have "concat (map g kvs) = concat (map g xs) @ g kv @ concat (map g ys)" by simp
  then show ?thesis by blast
qed

definition evicted :: "int64 \<Rightarrow> bytes \<times> bytes \<Rightarrow> nodeDB \<Rightarrow> bool" where
  "evicted p kv s =
     (p <s snd (orphanScan (fst kv)) \<longrightarrow>
        map_of (nodeCache s) (snd kv) = None \<and> map_of (fastNodeCache s) (fst kv) = None)"

lemma evicted_stable: "evicted p kv s \<Longrightarrow> shrinks s s' \<Longrightarrow> evicted p kv s'"
  by (simp add: evicted_def shrinks_def)

lemma traverseOrphansVersion_range:
  assumes acc: "accepting s"
  shows "fst (traverseOrphansVersion v (DeleteVersionsRange_fn p) s) = None
         \<and> extends s (concat (map (DeleteVersionsRange_ops p)
                                 (IteratePrefix (db s) (orphanVersionPrefix v))))
              (snd (traverseOrphansVersion v (DeleteVersionsRange_fn p) s))
         \<and> shrinks s (snd (traverseOrphansVersion v (DeleteVersionsRange_fn p) s))
         \<and> (\<forall>kv \<in> set (IteratePrefix (db s) (orphanVersionPrefix v)).
               evicted p kv (snd (traverseOrphansVersion v (DeleteVersionsRange_fn p) s)))"
  unfolding traverseOrphansVersion_def traversePrefix_def
proof (rule traverse_extends [where Q = "evicted p"])
  fix k h s'
  assume "accepting s'"
  from DeleteVersionsRange_fn_step [OF this, of p k h]
  show "fst (DeleteVersionsRange_fn p k h s') = None \<and>
       extends s' (DeleteVersionsRange_ops p (k, h)) (snd (DeleteVersionsRange_fn p k h s')) \<and>
       shrinks s' (snd (DeleteVersionsRange_fn p k h s')) \<and>
       evicted p (k, h) (snd (DeleteVersionsRange_fn p k h s'))"
    by (simp add: evicted_def)
next
  fix kv s1 s2
  assume "evicted p kv s1" "shrinks s1 s2"
  then show "evicted p kv s2" by (rule evicted_stable)
next
  show "accepting s" by (rule acc)
qed

lemma sle_succ_cases:
  assumes "(v :: 64 word) <s t"
  shows "v \<le>s u \<longleftrightarrow> u = v \<or> v + 1 \<le>s u"
proof -
  have "sint (v + 1) = sint v + 1" using assms by (rule sint_succ)
  then show ?thesis by (auto simp: word_sle_eq word_eq_iff_signed [where ?'a = int])
qed

lemma DeleteVersionsRange_versions_effect:
  "accepting s \<Longrightarrow>
   fst (DeleteVersionsRange_versions p v t s) = None
   \<and> shrinks s (snd (DeleteVersionsRange_versions p v t s))
   \<and> (\<exists>ops. extends s ops (snd (DeleteVersionsRange_versions p v t s))
           \<and> (\<forall>u kv. v \<le>s u \<and> u <s t \<and> kv \<in> set (IteratePrefix (db s) (orphanVersionPrefix u))
                 \<longrightarrow> (\<exists>a b. ops = a @ DeleteVersionsRange_ops p kv @ b)))
   \<and> (\<forall>u kv. v \<le>s u \<and> u <s t \<and> kv \<in> set (IteratePrefix (db s) (orphanVersionPrefix u))
         \<longrightarrow> evicted p kv (snd (DeleteVersionsRange_versions p v t s)))"
proof (induction p v t s rule: DeleteVersionsRange_versions.induct)
  case (1 p v t s)
  show ?case
  proof (cases "v <s t")
    case False
    then have none: "\<not> (v \<le>s u \<and> u <s t)" for u
      by (auto simp: word_sle_eq word_sless_alt)
    have unf0: "DeleteVersionsRange_versions p v t s = (None, s)"
      by (subst DeleteVersionsRange_versions.simps) (simp add: False)
    have ex0: "\<exists>ops. extends s ops s
           \<and> (\<forall>u kv. v \<le>s u \<and> u <s t \<and> kv \<in> set (IteratePrefix (db s) (orphanVersionPrefix u))
                 \<longrightarrow> (\<exists>a b. ops = a @ DeleteVersionsRange_ops p kv @ b))"
      using none extends_refl [of s] by blast
    have ev0: "\<forall>u kv. v \<le>s u \<and> u <s t \<and> kv \<in> set (IteratePrefix (db s) (orphanVersionPrefix u))
         \<longrightarrow> evicted p kv s"
      using none by blast
    have f0: "fst (None :: error option, s) = None" by simp
    show ?thesis
      unfolding unf0 snd_conv using f0 shrinks_refl [of s] ex0 ev0 by (intro conjI)
  next
    case True
    define s1 where "s1 = snd (traverseOrphansVersion v (DeleteVersionsRange_fn p) s)"
    define ops1 where "ops1 = concat (map (DeleteVersionsRange_ops p)
                                 (IteratePrefix (db s) (orphanVersionPrefix v)))"
    have tr: "fst (traverseOrphansVersion v (DeleteVersionsRange_fn p) s) = None"
      "extends s ops1 s1" "shrinks s s1"
      "\<forall>kv \<in> set (IteratePrefix (db s) (orphanVersionPrefix v)). evicted p kv s1"
      using traverseOrphansVersion_range [OF "1.prems", of v p] unfolding s1_def ops1_def
      by simp_all
    have tr': "traverseOrphansVersion v (DeleteVersionsRange_fn p) s = (None, s1)"
      using tr(1) by (simp add: s1_def prod_eq_iff)
    have acc1: "accepting s1" using tr(2) "1.prems" by (rule extends_accepting)
    have db1: "db s1 = db s" using tr(2) by (simp add: extends_def)
    define s2 where "s2 = snd (DeleteVersionsRange_versions p (v + 1) t s1)"
    have ih: "fst (DeleteVersionsRange_versions p (v + 1) t s1) = None"
      "shrinks s1 s2"
      "\<exists>ops. extends s1 ops s2
           \<and> (\<forall>u kv. v + 1 \<le>s u \<and> u <s t \<and> kv \<in> set (IteratePrefix (db s) (orphanVersionPrefix u))
                 \<longrightarrow> (\<exists>a b. ops = a @ DeleteVersionsRange_ops p kv @ b))"
      "\<forall>u kv. v + 1 \<le>s u \<and> u <s t \<and> kv \<in> set (IteratePrefix (db s) (orphanVersionPrefix u))
         \<longrightarrow> evicted p kv s2"
      using "1.IH" [OF True tr' [symmetric] refl acc1] unfolding s2_def db1 by blast+
    from ih(3) obtain ops2 where ops2: "extends s1 ops2 s2"
      "\<forall>u kv. v + 1 \<le>s u \<and> u <s t \<and> kv \<in> set (IteratePrefix (db s) (orphanVersionPrefix u))
                 \<longrightarrow> (\<exists>a b. ops2 = a @ DeleteVersionsRange_ops p kv @ b)"
      by blast
    have unf: "DeleteVersionsRange_versions p v t s = DeleteVersionsRange_versions p (v + 1) t s1"
      by (subst DeleteVersionsRange_versions.simps) (simp add: True tr')
    have e: "extends s (ops1 @ ops2) s2" using tr(2) ops2(1) by (rule extends_trans)
    have sh: "shrinks s s2" using tr(3) ih(2) by (rule shrinks_trans)
    have cover: "\<exists>a b. ops1 @ ops2 = a @ DeleteVersionsRange_ops p kv @ b"
      if "v \<le>s u" "u <s t" "kv \<in> set (IteratePrefix (db s) (orphanVersionPrefix u))" for u kv
    proof (cases "u = v")
      case True
      with that(3) have "kv \<in> set (IteratePrefix (db s) (orphanVersionPrefix v))" by simp
      from concat_map_split [OF this, of "DeleteVersionsRange_ops p"]
      obtain a b where "ops1 = a @ DeleteVersionsRange_ops p kv @ b"
        unfolding ops1_def by blast
      then have "ops1 @ ops2 = a @ DeleteVersionsRange_ops p kv @ (b @ ops2)" by simp
      then show ?thesis by blast
    next
      case False
      with that(1) sle_succ_cases [OF \<open>v <s t\<close>, of u] have "v + 1 \<le>s u" by simp
      with ops2(2) that obtain a b where "ops2 = a @ DeleteVersionsRange_ops p kv @ b" by blast
      then have "ops1 @ ops2 = (ops1 @ a) @ DeleteVersionsRange_ops p kv @ b" by simp
      then show ?thesis by blast
    qed
    have ev: "evicted p kv s2"
      if "v \<le>s u" "u <s t" "kv \<in> set (IteratePrefix (db s) (orphanVersionPrefix u))" for u kv
    proof (cases "u = v")
      case True
      with that(3) tr(4) have "evicted p kv s1" by simp
      then show ?thesis using ih(2) by (rule evicted_stable)
    next
      case False
      with that(1) sle_succ_cases [OF \<open>v <s t\<close>, of u] have "v + 1 \<le>s u" by simp
      with ih(4) that show ?thesis by blast
    qed
    have ex: "\<exists>ops. extends s ops s2
           \<and> (\<forall>u kv. v \<le>s u \<and> u <s t \<and> kv \<in> set (IteratePrefix (db s) (orphanVersionPrefix u))
                 \<longrightarrow> (\<exists>a b. ops = a @ DeleteVersionsRange_ops p kv @ b))"
      by (rule exI [of _ "ops1 @ ops2"]) (use e cover in blast)
    have f: "fst (DeleteVersionsRange_versions p v t s) = None"
      unfolding unf by (rule ih(1))
    have sn: "snd (DeleteVersionsRange_versions p v t s) = s2"
      unfolding unf s2_def by simp
    have ev': "\<forall>u kv. v \<le>s u \<and> u <s t \<and> kv \<in> set (IteratePrefix (db s) (orphanVersionPrefix u))
         \<longrightarrow> evicted p kv s2"
      using ev by blast
    show ?thesis
      unfolding sn using f sh ex ev' by (intro conjI)
  qed
qed

lemma evictFastNodes_step:
  "extends s [] (foldl (\<lambda>s entry.
              (let k = fst entry; elem = snd entry; fastNode = snd elem
               in if f \<le>s versionLastUpdatedAt fastNode \<and> versionLastUpdatedAt fastNode <s t
                  then s\<lparr>fastNodeCacheQueue := list_Remove (fst elem) (fastNodeCacheQueue s),
                         fastNodeCache := AList.delete k (fastNodeCache s)\<rparr>
                  else s)) s es)
   \<and> shrinks s (foldl (\<lambda>s entry.
              (let k = fst entry; elem = snd entry; fastNode = snd elem
               in if f \<le>s versionLastUpdatedAt fastNode \<and> versionLastUpdatedAt fastNode <s t
                  then s\<lparr>fastNodeCacheQueue := list_Remove (fst elem) (fastNodeCacheQueue s),
                         fastNodeCache := AList.delete k (fastNodeCache s)\<rparr>
                  else s)) s es)"
proof (induction es arbitrary: s)
  case Nil
  show ?case by (simp add: extends_refl shrinks_refl)
next
  case (Cons e es)
  define s1 where "s1 = (let k = fst e; elem = snd e; fastNode = snd elem
               in if f \<le>s versionLastUpdatedAt fastNode \<and> versionLastUpdatedAt fastNode <s t
                  then s\<lparr>fastNodeCacheQueue := list_Remove (fst elem) (fastNodeCacheQueue s),
                         fastNodeCache := AList.delete k (fastNodeCache s)\<rparr>
                  else s)"
  have a: "extends s [] s1" "shrinks s s1"
    by (auto simp: s1_def Let_def extends_def shrinks_def delete_conv')
  from Cons.IH [of s1] a extends_trans [of s "[]" s1 "[]"] shrinks_trans [of s s1]
  show ?case unfolding s1_def by auto
qed

lemma evictFastNodes_effect:
  "extends s [] (evictFastNodes f t s)" "shrinks s (evictFastNodes f t s)"
  unfolding evictFastNodes_def using evictFastNodes_step [of s f t "fastNodeCache s"] by simp_all

lemma deleteKey_step:
  assumes "accepting s"
  shows "fst (deleteKey k v s) = None \<and> extends s [OpDelete k] (snd (deleteKey k v s))
         \<and> shrinks s (snd (deleteKey k v s))"
  using assms by (simp add: deleteKey_def accepting_def batch_Delete_def extends_def shrinks_def)

lemma traverse_deleteKey:
  assumes "accepting s"
  shows "fst (traverse deleteKey kvs s) = None
         \<and> extends s (map (\<lambda>kv. OpDelete (fst kv)) kvs) (snd (traverse deleteKey kvs s))
         \<and> shrinks s (snd (traverse deleteKey kvs s))"
proof -
  have "fst (traverse deleteKey kvs s) = None
         \<and> extends s (concat (map (\<lambda>kv. [OpDelete (fst kv)]) kvs)) (snd (traverse deleteKey kvs s))
         \<and> shrinks s (snd (traverse deleteKey kvs s))
         \<and> (\<forall>kv \<in> set kvs. (\<lambda>_ _. True) kv (snd (traverse deleteKey kvs s)))"
    by (rule traverse_extends [where Q = "\<lambda>_ _. True"]) (simp_all add: deleteKey_step assms)
  moreover have "concat (map (\<lambda>kv. [OpDelete (fst kv)]) kvs) = map (\<lambda>kv. OpDelete (fst kv)) kvs"
    by (induction kvs) simp_all
  ultimately show ?thesis by simp
qed

lemma getPreviousVersion_cong: "db s1 = db s \<Longrightarrow> getPreviousVersion v s1 = getPreviousVersion v s"
  by (simp add: getPreviousVersion_def)

lemma DeleteVersionsRange_effect:
  assumes lt: "fromVersion <s toVersion" and nz: "toVersion \<noteq> 0"
    and latest: "\<not> fst (getLatestVersion ndb) <s toVersion"
    and rd: "\<not> list_ex (\<lambda>vr. fst vr <s toVersion \<and> getPreviousVersion fromVersion ndb <s fst vr
                              \<and> snd vr \<noteq> 0) (versionReaders ndb)"
    and acc: "accepting ndb"
  shows "fst (DeleteVersionsRange fromVersion toVersion ndb) = None
     \<and> (\<forall>v kv. fromVersion \<le>s v \<and> v <s toVersion
               \<and> kv \<in> set (IteratePrefix (db ndb) (orphanVersionPrefix v))
          \<longrightarrow> (\<exists>a b. pending (batch (snd (DeleteVersionsRange fromVersion toVersion ndb)))
                       = pending (batch ndb) @ a
                         @ DeleteVersionsRange_ops (getPreviousVersion fromVersion ndb) kv @ b)
              \<and> (getPreviousVersion fromVersion ndb <s snd (orphanScan (fst kv))
                  \<longrightarrow> map_of (nodeCache (snd (DeleteVersionsRange fromVersion toVersion ndb)))
                        (snd kv) = None
                      \<and> map_of (fastNodeCache (snd (DeleteVersionsRange fromVersion toVersion ndb)))
                        (fst kv) = None))"
proof -
  define p where "p = getPreviousVersion fromVersion ndb"
  define ndb1 where "ndb1 = snd (getLatestVersion ndb)"
  define l where "l = fst (getLatestVersion ndb)"
  have g: "getLatestVersion ndb = (l, ndb1)" by (simp add: ndb1_def l_def)
  have c1: "\<not> toVersion \<le>s fromVersion" using lt by (simp add: word_sle_eq word_sless_alt)
  have c2: "\<not> l <s toVersion" using latest by (simp add: l_def)
  have f1: "db ndb1 = db ndb" "versionReaders ndb1 = versionReaders ndb"
    "batch ndb1 = batch ndb" "accepting ndb1"
    using acc by (simp_all add: ndb1_def accepting_def)
  have p1: "getPreviousVersion fromVersion ndb1 = p"
    unfolding p_def using f1(1) by (rule getPreviousVersion_cong)
  define s2 where "s2 = snd (DeleteVersionsRange_versions p fromVersion toVersion ndb1)"
  have loop: "fst (DeleteVersionsRange_versions p fromVersion toVersion ndb1) = None"
    "shrinks ndb1 s2"
    "\<exists>ops. extends ndb1 ops s2
           \<and> (\<forall>u kv. fromVersion \<le>s u \<and> u <s toVersion
                      \<and> kv \<in> set (IteratePrefix (db ndb) (orphanVersionPrefix u))
                 \<longrightarrow> (\<exists>a b. ops = a @ DeleteVersionsRange_ops p kv @ b))"
    "\<forall>u kv. fromVersion \<le>s u \<and> u <s toVersion
            \<and> kv \<in> set (IteratePrefix (db ndb) (orphanVersionPrefix u))
         \<longrightarrow> evicted p kv s2"
    using DeleteVersionsRange_versions_effect [OF f1(4), of p fromVersion toVersion]
    unfolding s2_def f1(1) by blast+
  from loop(3) obtain ops where ops: "extends ndb1 ops s2"
    "\<forall>u kv. fromVersion \<le>s u \<and> u <s toVersion
                      \<and> kv \<in> set (IteratePrefix (db ndb) (orphanVersionPrefix u))
                 \<longrightarrow> (\<exists>a b. ops = a @ DeleteVersionsRange_ops p kv @ b)"
    by blast
  have l2: "DeleteVersionsRange_versions p fromVersion toVersion ndb1 = (None, s2)"
    using loop(1) by (simp add: s2_def prod_eq_iff)
  define s3 where "s3 = evictFastNodes fromVersion toVersion s2"
  have e3: "extends s2 [] s3" "shrinks s2 s3"
    unfolding s3_def by (rule evictFastNodes_effect)+
  have acc3: "accepting s3"
    using e3(1) extends_accepting [OF ops(1) f1(4)] by (rule extends_accepting)
  define s4 where "s4 = snd (traverseRange (rootKey fromVersion) (rootKey toVersion) deleteKey s3)"
  define rops where "rops = map (\<lambda>kv. OpDelete (fst kv))
                              (db_Iterator (db s3) (rootKey fromVersion) (rootKey toVersion))"
  have e4: "fst (traverseRange (rootKey fromVersion) (rootKey toVersion) deleteKey s3) = None"
    "extends s3 rops s4" "shrinks s3 s4"
    using traverse_deleteKey [OF acc3] unfolding traverseRange_def s4_def rops_def by blast+
  have res: "DeleteVersionsRange fromVersion toVersion ndb
               = traverseRange (rootKey fromVersion) (rootKey toVersion) deleteKey s3"
    using rd
    by (simp add: DeleteVersionsRange_def c1 nz g c2 p1 f1 p_def [symmetric] l2 s3_def)
  have pend: "pending (batch s4) = pending (batch ndb) @ ops @ rops"
    using ops(1) e3(1) e4(2) f1(3) by (simp add: extends_def)
  have sh: "shrinks s2 s4" using e3(2) e4(3) by (rule shrinks_trans)
  have main: "(\<exists>a b. pending (batch s4) = pending (batch ndb) @ a @ DeleteVersionsRange_ops p kv @ b)
              \<and> (p <s snd (orphanScan (fst kv))
                  \<longrightarrow> map_of (nodeCache s4) (snd kv) = None \<and> map_of (fastNodeCache s4) (fst kv) = None)"
    if "fromVersion \<le>s v" "v <s toVersion" "kv \<in> set (IteratePrefix (db ndb) (orphanVersionPrefix v))"
    for v kv
  proof -
    from ops(2) that obtain a b where "ops = a @ DeleteVersionsRange_ops p kv @ b" by blast
    then have "pending (batch s4) = pending (batch ndb) @ a @ DeleteVersionsRange_ops p kv @ (b @ rops)"
      using pend by simp
    then have 1: "\<exists>a b. pending (batch s4) = pending (batch ndb) @ a @ DeleteVersionsRange_ops p kv @ b"
      by blast
    from loop(4) that have "evicted p kv s2" by blast
    then have "evicted p kv s4" using sh by (rule evicted_stable)
    with 1 show ?thesis by (simp add: evicted_def)
  qed
  have fin: "fst (DeleteVersionsRange fromVersion toVersion ndb) = None"
    "snd (DeleteVersionsRange fromVersion toVersion ndb) = s4"
    unfolding res using e4(1) by (simp_all add: s4_def)
  show ?thesis
    unfolding fin p_def [symmetric] using main by blast
qed

text \<open>
  The part of claim C1 that the code satisfies. For a call with \<open>from < to\<close>,
  \<open>to \<noteq> 0\<close>, \<open>to\<close> at most the latest version, no reader strictly between the
  predecessor of \<open>from\<close> and \<open>to\<close>, and a batch that accepts its writes: the call
  succeeds, and for each orphan record \<open>(v, f, h)\<close> with \<open>v\<close> in the range the batch
  gets the deletion of the orphan record followed by the deletion of the node record of
  \<open>h\<close> when \<open>f\<close> is after the predecessor, and by the orphan record
  \<open>(predecessor, f, h)\<close> otherwise. In the first case the node cache has no entry for
  \<open>h\<close> afterwards. The fast-node cache has no entry under the key of the orphan
  record, which is the key the code passes to \<^verbatim>\<open>uncacheFastNode\<close>; nothing is said
  of the entry under the user key of the node.
\<close>

lemma DeleteVersionsRange_orphan_records:
  assumes lt: "fromVersion <s toVersion" and nz: "toVersion \<noteq> 0"
    and latest: "\<not> fst (getLatestVersion ndb) <s toVersion"
    and rd: "\<not> list_ex (\<lambda>vr. fst vr <s toVersion \<and> getPreviousVersion fromVersion ndb <s fst vr
                              \<and> snd vr \<noteq> 0) (versionReaders ndb)"
    and acc: "accepting ndb"
    and v: "fromVersion \<le>s v" "v <s toVersion"
    and orphan: "(orphanKey f v h, h) \<in> set (db ndb)"
  shows "fst (DeleteVersionsRange fromVersion toVersion ndb) = None
     \<and> (\<exists>a b. pending (batch (snd (DeleteVersionsRange fromVersion toVersion ndb)))
                 = pending (batch ndb) @ a
                   @ (OpDelete (orphanKey f v h)
                      # (if getPreviousVersion fromVersion ndb <s f
                         then [OpDelete (nodeKey h)]
                         else [OpSet (orphanKey f (getPreviousVersion fromVersion ndb) h) h]))
                   @ b)
     \<and> (getPreviousVersion fromVersion ndb <s f
          \<longrightarrow> map_of (nodeCache (snd (DeleteVersionsRange fromVersion toVersion ndb))) h = None
              \<and> map_of (fastNodeCache (snd (DeleteVersionsRange fromVersion toVersion ndb)))
                    (orphanKey f v h) = None)"
proof -
  have m: "(orphanKey f v h, h) \<in> set (IteratePrefix (db ndb) (orphanVersionPrefix v))"
    using orphan by (simp add: set_IteratePrefix has_prefix_orphanKey)
  have o: "DeleteVersionsRange_ops p (orphanKey f v h, h)
             = OpDelete (orphanKey f v h)
               # (if p <s f then [OpDelete (nodeKey h)] else [OpSet (orphanKey f p h) h])" for p
    by (simp add: DeleteVersionsRange_ops_def orphanScan_orphanKey)
  from DeleteVersionsRange_effect [OF lt nz latest rd acc] v m
  have "fst (DeleteVersionsRange fromVersion toVersion ndb) = None"
    "(\<exists>a b. pending (batch (snd (DeleteVersionsRange fromVersion toVersion ndb)))
                       = pending (batch ndb) @ a
                         @ DeleteVersionsRange_ops (getPreviousVersion fromVersion ndb)
                             (orphanKey f v h, h) @ b)
              \<and> (getPreviousVersion fromVersion ndb <s snd (orphanScan (fst (orphanKey f v h, h)))
                  \<longrightarrow> map_of (nodeCache (snd (DeleteVersionsRange fromVersion toVersion ndb)))
                        (snd (orphanKey f v h, h)) = None
                      \<and> map_of (fastNodeCache (snd (DeleteVersionsRange fromVersion toVersion ndb)))
                        (fst (orphanKey f v h, h)) = None)"
    by blast+
  then show ?thesis by (simp add: o orphanScan_orphanKey)
qed

text \<open>
  A database of three versions. Version 1 set the user key \<^verbatim>\<open>k\<close> (the leaf with the
  hash \<open>hashA\<close>), version 2 set it again (the leaf \<open>hashB\<close>), which made the first
  leaf an orphan with the lifetime from 1 to 1, and version 3 changed nothing. The node
  cache holds the first leaf; the fast-node cache holds the fast node of \<^verbatim>\<open>k\<close>, last
  updated at version 2.
\<close>

definition nodeA :: Node where
  "nodeA = \<lparr>nkey = [0x6B], nvalue = Some [0x61], nversion = 1, nheight = 0, nsize = 1,
            nhash = hashA, leftHash = None, rightHash = None, persisted = True\<rparr>"

definition fastK :: FastNode where
  "fastK = \<lparr>fkey = [0x6B], versionLastUpdatedAt = 2, fvalue = [0x62]\<rparr>"

definition store2 :: "(bytes \<times> bytes) list" where
  "store2 = [(nodeKey hashA, [1]), (nodeKey hashB, [2]), (orphanKey 1 1 hashA, hashA),
             (rootKey 1, hashA), (rootKey 2, hashB), (rootKey 3, hashB),
             (fastNodeKey [0x6B], [2, 0x62])]"

definition state2 :: nodeDB where
  "state2 = (newNodeDB store2 (\<lambda>_. None) 10)
     \<lparr>latestVersion := 3,
      nodeCache := [(hashA, (0, nodeA))], nodeCacheQueue := [(0, nodeA)],
      fastNodeCache := [([0x6B], (1, fastK))], fastNodeCacheQueue := [(1, fastK)],
      nextElem := 2\<rparr>"

lemma state2_fields:
  "db state2 = store2" "latestVersion state2 = 3" "versionReaders state2 = []"
  "batch state2 = \<lparr>pending = [], refuses = (\<lambda>_. None)\<rparr>"
  "nodeCache state2 = [(hashA, (0, nodeA))]" "fastNodeCache state2 = [([0x6B], (1, fastK))]"
  by (simp_all add: state2_def newNodeDB_def)

lemma state2_prev: "getPreviousVersion 1 state2 = 0"
  unfolding getPreviousVersion_def state2_fields
  by (simp add: store2_def db_ReverseIterator_def db_Iterator_def eval_keys2 fastNodeKey_def)

lemma state2_orphans:
  "IteratePrefix (db state2) (orphanVersionPrefix 1) = [(orphanKey 1 1 hashA, hashA)]"
  unfolding state2_fields
  by (simp add: store2_def IteratePrefix_def eval_keys2 fastNodeKey_def)

lemma state2_roots:
  "db_Iterator store2 (rootKey 1) (rootKey 2) = [(rootKey 1, hashA)]"
  by (simp add: store2_def db_Iterator_def eval_keys2 fastNodeKey_def)

definition state2' :: nodeDB where
  "state2' = state2
     \<lparr>batch := \<lparr>pending = [OpDelete (orphanKey 1 1 hashA), OpDelete (nodeKey hashA)],
                refuses = (\<lambda>_. None)\<rparr>,
      nodeCache := [], nodeCacheQueue := []\<rparr>"

lemma hashA_orphanKey: "orphanKey f t h \<noteq> [0x6B]"
  by (simp add: orphanKey_def be64_def)

lemma state2_traverse:
  "traverseOrphansVersion 1 (DeleteVersionsRange_fn 0) state2 = (None, state2')"
  unfolding traverseOrphansVersion_def traversePrefix_def state2_orphans
  by (simp add: DeleteVersionsRange_fn_def orphanScan_orphanKey state2_fields batch_Delete_def
        word_sless_alt uncacheNode_def uncacheFastNode_def hashA_orphanKey list_Remove_def
        state2'_def state2_def newNodeDB_def)

lemma state2_fields':
  "db state2' = store2" "fastNodeCache state2' = [([0x6B], (1, fastK))]"
  by (simp_all add: state2'_def state2_fields)

lemma state2_orphans2: "IteratePrefix store2 (orphanVersionPrefix 2) = []"
  by (simp add: store2_def IteratePrefix_def eval_keys2 fastNodeKey_def)

lemma state2_loop: "DeleteVersionsRange_versions 0 1 2 state2 = (None, state2')"
proof -
  have "DeleteVersionsRange_versions 0 1 2 state2 = DeleteVersionsRange_versions 0 2 2 state2'"
    by (subst DeleteVersionsRange_versions.simps) (simp add: state2_traverse word_sless_alt)
  also have "\<dots> = (None, state2')"
    by (subst DeleteVersionsRange_versions.simps) (simp add: word_sless_alt)
  finally show ?thesis .
qed

lemma state2_evict: "evictFastNodes 1 2 state2' = state2'"
  by (simp add: evictFastNodes_def state2_fields' fastK_def word_sle_eq word_sless_alt)

text \<open>
  Claim C1 at that database, for the range from 1 to 2. The preconditions of the claim
  hold: the latest version is 3, the predecessor of 1 is 0 and there is no reader. The
  orphan of the first leaf ends at version 1 and starts after the predecessor; the call
  deletes the orphan record and the node record and takes the node out of the node
  cache. The claim wants the user key of the node, \<^verbatim>\<open>k\<close>, out of the fast-node
  cache as well; after the call the fast-node cache still holds it, since the code hands
  the key of the orphan record to \<^verbatim>\<open>uncacheFastNode\<close>.
\<close>

theorem DeleteVersionsRange_keeps_user_key:
  "nkey nodeA = [0x6B]
   \<and> map_of (nodeCache state2) hashA = Some (0, nodeA)
   \<and> map_of (fastNodeCache state2) (nkey nodeA) = Some (1, fastK)
   \<and> (orphanKey 1 1 hashA, hashA) \<in> set (db state2)
   \<and> fst (getLatestVersion state2) = 3
   \<and> getPreviousVersion 1 state2 = 0
   \<and> versionReaders state2 = []
   \<and> fst (DeleteVersionsRange 1 2 state2) = None
   \<and> pending (batch (snd (DeleteVersionsRange 1 2 state2)))
       = [OpDelete (orphanKey 1 1 hashA), OpDelete (nodeKey hashA), OpDelete (rootKey 1)]
   \<and> map_of (nodeCache (snd (DeleteVersionsRange 1 2 state2))) hashA = None
   \<and> map_of (fastNodeCache (snd (DeleteVersionsRange 1 2 state2))) (nkey nodeA) = Some (1, fastK)"
proof -
  have g: "getLatestVersion state2 = (3, state2)"
    by (simp add: getLatestVersion_def state2_fields)
  have r: "DeleteVersionsRange 1 2 state2
             = traverseRange (rootKey 1) (rootKey 2) deleteKey state2'"
    by (simp add: DeleteVersionsRange_def g state2_prev state2_fields state2_loop state2_evict
          word_sle_eq word_sless_alt)
  have t: "traverseRange (rootKey 1) (rootKey 2) deleteKey state2'
             = (None, state2'\<lparr>batch := \<lparr>pending = [OpDelete (orphanKey 1 1 hashA),
                                                    OpDelete (nodeKey hashA), OpDelete (rootKey 1)],
                                        refuses = (\<lambda>_. None)\<rparr>\<rparr>)"
    unfolding traverseRange_def state2_fields' state2_roots
    by (simp add: deleteKey_def batch_Delete_def state2'_def)
  show ?thesis
    unfolding r t
    by (simp add: g state2_prev state2_fields nodeA_def)
       (simp add: state2'_def state2_fields store2_def)
qed

subsection \<open>Deleting all versions from a version upwards\<close>

text \<open>
  What the spec says of an orphan record when all versions from \<open>version\<close> upwards
  are deleted: when the first version of the orphan is at least \<open>version\<close>, the
  orphan record and the node record are deleted; otherwise, when its last version is at
  least \<open>version - 1\<close>, the orphan record alone is deleted; otherwise nothing is.
  And of a fast node: it is deleted when it was last updated at \<open>version\<close> or later.
\<close>

definition DeleteVersionsFrom_orphan_ops :: "int64 \<Rightarrow> bytes \<times> bytes \<Rightarrow> batch_op list" where
  "DeleteVersionsFrom_orphan_ops version kv =
     (let (toVersion, fromVersion) = orphanScan (fst kv)
      in if version \<le>s fromVersion then [OpDelete (fst kv), OpDelete (nodeKey (snd kv))]
         else if version - 1 \<le>s toVersion then [OpDelete (fst kv)]
         else [])"

definition DeleteVersionsFrom_fast_ops ::
  "(bytes \<Rightarrow> bytes \<Rightarrow> error + FastNode) \<Rightarrow> int64 \<Rightarrow> bytes \<times> bytes \<Rightarrow> batch_op list" where
  "DeleteVersionsFrom_fast_ops DeserializeFastNode version kv =
     (case DeserializeFastNode (drop 1 (fst kv)) (snd kv) of
        Inl e \<Rightarrow> []
      | Inr fastNode \<Rightarrow>
          (if version \<le>s versionLastUpdatedAt fastNode
           then [OpDelete (fastNodeKey (fkey fastNode))]
           else []))"

lemma DeleteVersionsFrom_orphans_step:
  assumes "accepting s"
  shows "fst (DeleteVersionsFrom_orphans v k h s) = None
         \<and> extends s (DeleteVersionsFrom_orphan_ops v (k, h)) (snd (DeleteVersionsFrom_orphans v k h s))
         \<and> shrinks s (snd (DeleteVersionsFrom_orphans v k h s))"
  using assms
  by (auto simp: DeleteVersionsFrom_orphans_def DeleteVersionsFrom_orphan_ops_def accepting_def
        batch_Delete_def extends_def shrinks_def Let_def split: prod.splits)

lemma DeleteVersionsFrom_fastNodes_step:
  assumes "accepting s" and "DeserializeFastNode (drop 1 k) v = Inr f"
  shows "fst (DeleteVersionsFrom_fastNodes DeserializeFastNode ver k v s) = None
         \<and> extends s (DeleteVersionsFrom_fast_ops DeserializeFastNode ver (k, v))
              (snd (DeleteVersionsFrom_fastNodes DeserializeFastNode ver k v s))
         \<and> shrinks s (snd (DeleteVersionsFrom_fastNodes DeserializeFastNode ver k v s))"
  using assms shrinks_uncacheFastNode [of "s\<lparr>batch := (batch s)\<lparr>pending := pending (batch s) @ [OpDelete (fastNodeKey (fkey f))]\<rparr>\<rparr>" "fkey f"]
  by (auto simp: DeleteVersionsFrom_fastNodes_def DeleteVersionsFrom_fast_ops_def accepting_def
        DeleteFastNode_def batch_Delete_def extends_def shrinks_def)

lemma cacheNode_frame [simp]:
  "db (cacheNode n s) = db s" "batch (cacheNode n s) = batch s"
  "latestVersion (cacheNode n s) = latestVersion s"
  "versionReaders (cacheNode n s) = versionReaders s"
  "storageVersion (cacheNode n s) = storageVersion s"
  "fastNodeCache (cacheNode n s) = fastNodeCache s"
  "fastNodeCacheQueue (cacheNode n s) = fastNodeCacheQueue s"
  by (simp_all add: cacheNode_def Let_def split: list.splits)

lemma GetNode_extends: "extends s [] (snd (GetNode mk h s))"
  by (auto simp: GetNode_def extends_def Let_def split: option.splits sum.splits)

lemma deleteNodesFrom_extends:
  "deleteNodesFrom mk fuel v h s = Some (r, s') \<Longrightarrow> \<exists>ops. extends s ops s'"
proof (induction fuel arbitrary: h s r s')
  case 0
  then show ?case by simp
next
  case (Suc fuel)
  show ?case
  proof (cases "h = []")
    case True
    with Suc.prems show ?thesis by (auto intro: exI [of _ "[]"] simp: extends_refl)
  next
    case False
    obtain g s1 where g: "GetNode mk h s = (g, s1)" by (cases "GetNode mk h s")
    have e1: "extends s [] s1" using GetNode_extends [of s mk h] g by simp
    show ?thesis
    proof (cases g)
      case (Inl e)
      with Suc.prems False g e1 show ?thesis by auto
    next
      case (Inr node)
      define L where "L = (case leftHash node of None \<Rightarrow> Some (None, s1)
                           | Some lh \<Rightarrow> deleteNodesFrom mk fuel v lh s1)"
      have eL: "\<exists>ops. extends s1 ops s2" if "L = Some (rl, s2)" for rl s2
        using that Suc.IH unfolding L_def
        by (cases "leftHash node") (auto intro: exI [of _ "[]"] simp: extends_refl)
      show ?thesis
      proof (cases L)
        case None
        with Suc.prems False g Inr show ?thesis by (simp add: L_def)
      next
        case (Some pl)
        obtain rl s2 where pl: "pl = (rl, s2)" by (cases pl)
        from eL Some pl obtain o2 where e2: "extends s1 o2 s2" by blast
        show ?thesis
        proof (cases rl)
          case (Some e)
          with Suc.prems False g Inr \<open>L = Some pl\<close> pl have "s' = s2" by (simp add: L_def)
          with e1 e2 extends_trans [of s "[]" s1 o2 s2] show ?thesis by auto
        next
          case None
          define R where "R = (case rightHash node of None \<Rightarrow> Some (None, s2)
                           | Some rh \<Rightarrow> deleteNodesFrom mk fuel v rh s2)"
          have eR: "\<exists>ops. extends s2 ops s3" if "R = Some (rr, s3)" for rr s3
            using that Suc.IH unfolding R_def
            by (cases "rightHash node") (auto intro: exI [of _ "[]"] simp: extends_refl)
          have unf: "deleteNodesFrom mk (Suc fuel) v h s =
              (case R of None \<Rightarrow> None
               | Some (Some e, ndb3) \<Rightarrow> Some (Some e, ndb3)
               | Some (None, ndb3) \<Rightarrow>
                   (if v \<le>s nversion node
                    then (case batch_Delete (nodeKey h) (batch ndb3) of
                            (Some e, b) \<Rightarrow> Some (Some e, ndb3)
                          | (None, b) \<Rightarrow> Some (None, uncacheNode h (ndb3\<lparr>batch := b\<rparr>)))
                    else Some (None, ndb3)))"
            using False g Inr \<open>L = Some pl\<close> pl None by (simp add: L_def R_def)
          show ?thesis
          proof (cases R)
            case None
            with Suc.prems unf show ?thesis by simp
          next
            case (Some pr)
            obtain rr s3 where pr: "pr = (rr, s3)" by (cases pr)
            from eR Some pr obtain o3 where e3: "extends s2 o3 s3" by blast
            have e13: "extends s (o2 @ o3) s3"
              using extends_trans [OF extends_trans [OF e1 e2] e3] by simp
            have "\<exists>o4. extends s3 o4 s'"
              using Suc.prems unf Some pr
              by (auto simp: batch_Delete_def extends_def split: option.splits if_splits)
            then obtain o4 where "extends s3 o4 s'" by blast
            with e13 extends_trans [of s "o2 @ o3" s3 o4 s'] show ?thesis by blast
          qed
        qed
      qed
    qed
  qed
qed

text \<open>A descent that returned returns the same with more depth allowed.\<close>

lemma deleteNodesFrom_fuel:
  "deleteNodesFrom mk fuel v h s = Some r \<Longrightarrow> deleteNodesFrom mk (Suc fuel) v h s = Some r"
proof (induction fuel arbitrary: h s r)
  case 0
  then show ?case by simp
next
  case (Suc fuel)
  show ?case
  proof (cases "h = []")
    case True
    with Suc.prems show ?thesis by simp
  next
    case False
    obtain g s1 where g: "GetNode mk h s = (g, s1)" by (cases "GetNode mk h s")
    show ?thesis
    proof (cases g)
      case (Inl e)
      with Suc.prems False g show ?thesis by simp
    next
      case (Inr node)
      define L where "L n = (case leftHash node of None \<Rightarrow> Some (None, s1)
                           | Some lh \<Rightarrow> deleteNodesFrom mk n v lh s1)" for n
      define R where "R n s2 = (case rightHash node of None \<Rightarrow> Some (None, s2)
                           | Some rh \<Rightarrow> deleteNodesFrom mk n v rh s2)" for n s2
      have unf: "deleteNodesFrom mk (Suc n) v h s =
         (case L n of None \<Rightarrow> None
          | Some (Some e, ndb2) \<Rightarrow> Some (Some e, ndb2)
          | Some (None, ndb2) \<Rightarrow>
              (case R n ndb2 of None \<Rightarrow> None
               | Some (Some e, ndb3) \<Rightarrow> Some (Some e, ndb3)
               | Some (None, ndb3) \<Rightarrow>
                   (if v \<le>s nversion node
                    then (case batch_Delete (nodeKey h) (batch ndb3) of
                            (Some e, b) \<Rightarrow> Some (Some e, ndb3)
                          | (None, b) \<Rightarrow> Some (None, uncacheNode h (ndb3\<lparr>batch := b\<rparr>)))
                    else Some (None, ndb3))))" for n
        unfolding L_def R_def using False g Inr by simp
      have Lm: "L fuel = Some x \<Longrightarrow> L (Suc fuel) = Some x" for x
        unfolding L_def using Suc.IH by (cases "leftHash node") auto
      have Rm: "R fuel s2 = Some x \<Longrightarrow> R (Suc fuel) s2 = Some x" for x s2
        unfolding R_def using Suc.IH by (cases "rightHash node") auto
      from Suc.prems show ?thesis
        unfolding unf [of fuel] unf [of "Suc fuel"]
        by (auto split: option.splits prod.splits if_splits dest!: Lm Rm)
    qed
  qed
qed

lemma has_prefix_orphanPrefix: "has_prefix orphanPrefix (orphanKey f t h)"
  by (simp add: orphanPrefix_def orphanKey_def)

lemma DeleteVersionsFrom_orphan_ops_record:
  "DeleteVersionsFrom_orphan_ops version (orphanKey f t h, h)
     = (if version \<le>s f then [OpDelete (orphanKey f t h), OpDelete (nodeKey h)]
        else if version - 1 \<le>s t then [OpDelete (orphanKey f t h)]
        else [])"
  by (simp add: DeleteVersionsFrom_orphan_ops_def orphanScan_orphanKey)

lemma DeleteVersionsFrom_effect:
  assumes latest: "\<not> fst (getLatestVersion ndb) <s version"
    and rd: "\<not> list_ex (\<lambda>vr. version \<le>s fst vr \<and> snd vr \<noteq> 0) (versionReaders ndb)"
    and root: "db_Get (db ndb) (rootKey (fst (getLatestVersion ndb))) = Some root"
    and nodes: "deleteNodesFrom MakeNode fuel version root (snd (getLatestVersion ndb))
                  = Some (None, ndb2)"
    and acc: "accepting ndb"
    and fast: "\<forall>kv \<in> set (IteratePrefix (db ndb) fastPrefix).
                 \<exists>f. DeserializeFastNode (drop 1 (fst kv)) (snd kv) = Inr f"
  shows "\<exists>ndb'. DeleteVersionsFrom MakeNode DeserializeFastNode fuel version ndb = Some (None, ndb')
           \<and> db ndb' = db ndb
           \<and> pending (batch ndb')
               = pending (batch ndb2)
                 @ concat (map (DeleteVersionsFrom_orphan_ops version)
                             (IteratePrefix (db ndb) orphanPrefix))
                 @ map (\<lambda>kv. OpDelete (fst kv))
                     (db_Iterator (db ndb) (rootKey version) (rootKey 0x7FFFFFFFFFFFFFFF))
                 @ concat (map (DeleteVersionsFrom_fast_ops DeserializeFastNode version)
                             (IteratePrefix (db ndb) fastPrefix))"
proof -
  define l where "l = fst (getLatestVersion ndb)"
  define ndb1 where "ndb1 = snd (getLatestVersion ndb)"
  have g: "getLatestVersion ndb = (l, ndb1)" by (simp add: ndb1_def l_def)
  have f1: "db ndb1 = db ndb" "versionReaders ndb1 = versionReaders ndb" "accepting ndb1"
    using acc by (simp_all add: ndb1_def accepting_def)
  from nodes obtain ops0 where e0: "extends ndb1 ops0 ndb2"
    unfolding ndb1_def [symmetric] using deleteNodesFrom_extends by blast
  have acc2: "accepting ndb2" using e0 f1(3) by (rule extends_accepting)
  have db2: "db ndb2 = db ndb" using e0 f1(1) by (simp add: extends_def)
  define s3 where "s3 = snd (traverseOrphans (DeleteVersionsFrom_orphans version) ndb2)"
  define orph where "orph = concat (map (DeleteVersionsFrom_orphan_ops version)
                             (IteratePrefix (db ndb) orphanPrefix))"
  have t3: "fst (traverseOrphans (DeleteVersionsFrom_orphans version) ndb2) = None
         \<and> extends ndb2 orph s3 \<and> shrinks ndb2 s3
         \<and> (\<forall>kv \<in> set (IteratePrefix (db ndb) orphanPrefix). (\<lambda>_ _. True) kv s3)"
    unfolding traverseOrphans_def traversePrefix_def s3_def orph_def db2
    by (rule traverse_extends [where Q = "\<lambda>_ _. True"])
       (simp_all add: DeleteVersionsFrom_orphans_step acc2)
  then have r3: "traverseOrphans (DeleteVersionsFrom_orphans version) ndb2 = (None, s3)"
    by (simp add: s3_def prod_eq_iff)
  have acc3: "accepting s3" using t3 acc2 extends_accepting by blast
  have db3: "db s3 = db ndb" using t3 db2 by (simp add: extends_def)
  define s4 where "s4 = snd (traverseRange (rootKey version) (rootKey 0x7FFFFFFFFFFFFFFF)
                                deleteKey s3)"
  define rops where "rops = map (\<lambda>kv. OpDelete (fst kv))
                     (db_Iterator (db ndb) (rootKey version) (rootKey 0x7FFFFFFFFFFFFFFF))"
  have t4: "fst (traverseRange (rootKey version) (rootKey 0x7FFFFFFFFFFFFFFF) deleteKey s3) = None"
    "extends s3 rops s4"
    using traverse_deleteKey [OF acc3] unfolding traverseRange_def s4_def rops_def db3 by blast+
  then have r4: "traverseRange (rootKey version) (rootKey 0x7FFFFFFFFFFFFFFF) deleteKey s3
                   = (None, s4)"
    by (simp add: s4_def prod_eq_iff)
  have acc4: "accepting s4" using t4(2) acc3 by (rule extends_accepting)
  have db4: "db s4 = db ndb" using t4(2) db3 by (simp add: extends_def)
  define s5 where "s5 = snd (traverseFastNodes
                                (DeleteVersionsFrom_fastNodes DeserializeFastNode version) s4)"
  define fops where "fops = concat (map (DeleteVersionsFrom_fast_ops DeserializeFastNode version)
                             (IteratePrefix (db ndb) fastPrefix))"
  have t5: "fst (traverseFastNodes (DeleteVersionsFrom_fastNodes DeserializeFastNode version) s4)
              = None
         \<and> extends s4 fops s5 \<and> shrinks s4 s5
         \<and> (\<forall>kv \<in> set (IteratePrefix (db ndb) fastPrefix). (\<lambda>_ _. True) kv s5)"
    unfolding traverseFastNodes_def traversePrefix_def s5_def fops_def db4
  proof (rule traverse_extends [where Q = "\<lambda>_ _. True"])
    fix k h s
    assume a: "accepting s" and m: "(k, h) \<in> set (IteratePrefix (db ndb) fastPrefix)"
    from fast m obtain f where "DeserializeFastNode (drop 1 k) h = Inr f" by fastforce
    with a DeleteVersionsFrom_fastNodes_step [of s DeserializeFastNode k h f version]
    show "fst (DeleteVersionsFrom_fastNodes DeserializeFastNode version k h s) = None \<and>
       extends s (DeleteVersionsFrom_fast_ops DeserializeFastNode version (k, h))
        (snd (DeleteVersionsFrom_fastNodes DeserializeFastNode version k h s)) \<and>
       shrinks s (snd (DeleteVersionsFrom_fastNodes DeserializeFastNode version k h s)) \<and> True"
      by simp
  next
    show "\<And>kv s s'. True \<Longrightarrow> shrinks s s' \<Longrightarrow> True" by simp
  next
    show "accepting s4" by (rule acc4)
  qed
  then have r5: "traverseFastNodes (DeleteVersionsFrom_fastNodes DeserializeFastNode version) s4
                   = (None, s5)"
    by (simp add: s5_def prod_eq_iff)
  have c2: "\<not> l <s version" using latest by (simp add: l_def)
  have root1: "db_Get (db ndb) (rootKey l) = Some root" using root by (simp add: l_def)
  have nodes1: "deleteNodesFrom MakeNode fuel version root ndb1 = Some (None, ndb2)"
    using nodes by (simp add: ndb1_def)
  have res: "DeleteVersionsFrom MakeNode DeserializeFastNode fuel version ndb = Some (None, s5)"
    using rd by (simp add: DeleteVersionsFrom_def g c2 root1 f1 nodes1 r3 r4 r5)
  have pend: "pending (batch s5) = pending (batch ndb2) @ orph @ rops @ fops"
    using t3 t4(2) t5 by (simp add: extends_def)
  have db5: "db s5 = db ndb" using t5 db4 by (simp add: extends_def)
  show ?thesis
    using res pend db5 unfolding orph_def rops_def fops_def by blast
qed

lemma DeleteVersionsFrom_fuel:
  "DeleteVersionsFrom mk dfn fuel v s = Some r \<Longrightarrow>
   DeleteVersionsFrom mk dfn (Suc fuel) v s = Some r"
proof -
  assume a: "DeleteVersionsFrom mk dfn fuel v s = Some r"
  obtain l s1 where g: "getLatestVersion s = (l, s1)" by (cases "getLatestVersion s")
  show ?thesis
  proof (cases "db_Get (db s1) (rootKey l)")
    case None
    with a g show ?thesis
      by (auto simp: DeleteVersionsFrom_def simp del: deleteNodesFrom.simps split: if_splits)
  next
    case (Some root)
    show ?thesis
    proof (cases "deleteNodesFrom mk fuel v root s1")
      case None
      with a g Some show ?thesis
        by (auto simp: DeleteVersionsFrom_def simp del: deleteNodesFrom.simps split: if_splits)
    next
      case (Some x)
      from deleteNodesFrom_fuel [OF this]
      have "deleteNodesFrom mk (Suc fuel) v root s1 = Some x" .
      with Some a g \<open>db_Get (db s1) (rootKey l) = Some root\<close> show ?thesis
        by (auto simp: DeleteVersionsFrom_def simp del: deleteNodesFrom.simps split: if_splits)
    qed
  qed
qed

text \<open>
  The store as the spec has it (section 3.3). \<open>loadNode\<close> is the node a hash resolves
  to: the record under its node key, decoded, as \<^verbatim>\<open>GetNode\<close> reads it from the
  store. \<open>tree_resolves\<close>: every hash met from \<open>hash\<close> downwards, to the given
  depth, resolves to a node record (invariant 1). \<open>orphans_resolve\<close>: every orphan
  record names a node record (invariant 2) whose version is the first version of the
  orphan (an orphan \<open>(to, from, hash)\<close> is the node of \<open>hash\<close>, created at
  \<open>from\<close>). \<open>cache_coherent\<close>: the node cache holds, under a hash, the node the
  hash resolves to. \<open>nodesFrom\<close> is step 1 of the deletion in the spec: the nodes from
  \<open>hash\<close> downwards whose version is at least \<open>version\<close>, both children before
  the node.
\<close>

definition loadNode :: "(bytes \<Rightarrow> error + Node) \<Rightarrow> (bytes \<times> bytes) list \<Rightarrow> bytes \<Rightarrow> Node option" where
  "loadNode MakeNode d hash =
     (case db_Get d (nodeKey hash) of
        None \<Rightarrow> None
      | Some buf \<Rightarrow>
          (case MakeNode buf of
             Inl e \<Rightarrow> None
           | Inr node0 \<Rightarrow> Some (node0\<lparr>nhash := hash, persisted := True\<rparr>)))"

definition cache_coherent :: "(bytes \<Rightarrow> error + Node) \<Rightarrow> nodeDB \<Rightarrow> bool" where
  "cache_coherent MakeNode ndb =
     list_all (\<lambda>entry. loadNode MakeNode (db ndb) (fst entry) = Some (snd (snd entry)))
       (nodeCache ndb)"

fun tree_resolves ::
  "(bytes \<Rightarrow> error + Node) \<Rightarrow> (bytes \<times> bytes) list \<Rightarrow> nat \<Rightarrow> bytes \<Rightarrow> bool" where
  "tree_resolves MakeNode d 0 hash = False"
| "tree_resolves MakeNode d (Suc depth) hash =
     (hash = [] \<or>
      (case loadNode MakeNode d hash of
         None \<Rightarrow> False
       | Some node \<Rightarrow>
           (case leftHash node of None \<Rightarrow> True
            | Some lh \<Rightarrow> tree_resolves MakeNode d depth lh)
           \<and> (case rightHash node of None \<Rightarrow> True
              | Some rh \<Rightarrow> tree_resolves MakeNode d depth rh)))"

fun nodesFrom ::
  "(bytes \<Rightarrow> error + Node) \<Rightarrow> (bytes \<times> bytes) list \<Rightarrow> nat \<Rightarrow> int64 \<Rightarrow> bytes \<Rightarrow> bytes list" where
  "nodesFrom MakeNode d 0 version hash = []"
| "nodesFrom MakeNode d (Suc depth) version hash =
     (if hash = [] then []
      else (case loadNode MakeNode d hash of
              None \<Rightarrow> []
            | Some node \<Rightarrow>
                (case leftHash node of None \<Rightarrow> []
                 | Some lh \<Rightarrow> nodesFrom MakeNode d depth version lh)
                @ (case rightHash node of None \<Rightarrow> []
                   | Some rh \<Rightarrow> nodesFrom MakeNode d depth version rh)
                @ (if version \<le>s nversion node then [hash] else [])))"

definition orphans_resolve :: "(bytes \<Rightarrow> error + Node) \<Rightarrow> (bytes \<times> bytes) list \<Rightarrow> bool" where
  "orphans_resolve MakeNode d =
     list_all (\<lambda>kv. case loadNode MakeNode d (snd kv) of
                       None \<Rightarrow> False
                     | Some node \<Rightarrow> nversion node = snd (orphanScan (fst kv)))
       (IteratePrefix d orphanPrefix)"

lemma set_AList_update:
  "x \<in> set (AList.update k v al) \<Longrightarrow> x = (k, v) \<or> x \<in> set al"
  by (induction al) (auto split: if_splits)

lemma set_AList_delete: "x \<in> set (AList.delete k al) \<Longrightarrow> x \<in> set al"
  by (simp add: AList.delete_eq)

lemma cache_coherent_frame [simp]:
  "cache_coherent mk (s\<lparr>batch := b\<rparr>) = cache_coherent mk s"
  "cache_coherent mk (s\<lparr>nodeCacheQueue := q\<rparr>) = cache_coherent mk s"
  "cache_coherent mk (s\<lparr>nextElem := n\<rparr>) = cache_coherent mk s"
  by (simp_all add: cache_coherent_def)

lemma cache_coherent_cacheNode:
  assumes "cache_coherent mk s" "loadNode mk (db s) (nhash node) = Some node"
  shows "cache_coherent mk (cacheNode node s)"
  using assms
  by (auto simp: cache_coherent_def cacheNode_def Let_def list_all_iff
      split: list.splits dest!: set_AList_delete set_AList_update)

lemma cache_coherent_uncacheNode:
  "cache_coherent mk s \<Longrightarrow> cache_coherent mk (uncacheNode h s)"
  by (auto simp: cache_coherent_def uncacheNode_def list_all_iff
      split: option.splits dest!: set_AList_delete)

lemma GetNode_coherent:
  assumes c: "cache_coherent mk s" and h: "h \<noteq> []" and l: "loadNode mk (db s) h = Some node"
  shows "\<exists>s1. GetNode mk h s = (Inr node, s1) \<and> extends s [] s1 \<and> cache_coherent mk s1"
proof (cases "map_of (nodeCache s) h")
  case None
  from l obtain buf node0 where b: "db_Get (db s) (nodeKey h) = Some buf" "mk buf = Inr node0"
    "node = node0\<lparr>nhash := h, persisted := True\<rparr>"
    by (auto simp: loadNode_def split: option.splits sum.splits)
  have g: "GetNode mk h s = (Inr node, cacheNode node s)"
    using h None b by (simp add: GetNode_def Let_def)
  have "nhash node = h" using b(3) by simp
  with l have "loadNode mk (db s) (nhash node) = Some node" by simp
  from cache_coherent_cacheNode [OF c this] g show ?thesis
    by (auto simp: extends_def)
next
  case (Some elem)
  then have "(h, elem) \<in> set (nodeCache s)" by (rule map_of_SomeD)
  with c have "loadNode mk (db s) h = Some (snd elem)"
    by (auto simp: cache_coherent_def list_all_iff)
  with l have e: "snd elem = node" by simp
  show ?thesis
    using h Some e c by (simp add: GetNode_def extends_def)
qed

lemma extends_coherent_db: "extends s ops s' \<Longrightarrow> db s' = db s"
  by (simp add: extends_def)

text \<open>
  On a tree that resolves to the depth \<open>n\<close>, the descent returns within that depth,
  without error, and has deleted the node records of \<open>nodesFrom\<close>.
\<close>

lemma deleteNodesFrom_tree:
  assumes "cache_coherent mk s" "accepting s" "tree_resolves mk (db s) n h"
  shows "\<exists>s'. deleteNodesFrom mk n v h s = Some (None, s')
           \<and> extends s (map (\<lambda>x. OpDelete (nodeKey x)) (nodesFrom mk (db s) n v h)) s'
           \<and> cache_coherent mk s'"
  using assms
proof (induction n arbitrary: h s)
  case 0
  then show ?case by simp
next
  case (Suc n)
  show ?case
  proof (cases "h = []")
    case True
    with Suc.prems show ?thesis by (simp add: extends_refl)
  next
    case False
    with Suc.prems(3) obtain node where l: "loadNode mk (db s) h = Some node"
      and tl: "case leftHash node of None \<Rightarrow> True | Some lh \<Rightarrow> tree_resolves mk (db s) n lh"
      and tr: "case rightHash node of None \<Rightarrow> True | Some rh \<Rightarrow> tree_resolves mk (db s) n rh"
      by (auto split: option.splits)
    from GetNode_coherent [OF Suc.prems(1) False l]
    obtain s1 where g: "GetNode mk h s = (Inr node, s1)" and e1: "extends s [] s1"
      and c1: "cache_coherent mk s1" by blast
    have a1: "accepting s1" using e1 Suc.prems(2) by (rule extends_accepting)
    have d1: "db s1 = db s" using e1 by (rule extends_coherent_db)
    define lops where "lops = (case leftHash node of None \<Rightarrow> []
                               | Some lh \<Rightarrow> nodesFrom mk (db s) n v lh)"
    define rops where "rops = (case rightHash node of None \<Rightarrow> []
                               | Some rh \<Rightarrow> nodesFrom mk (db s) n v rh)"
    have L: "\<exists>s2. (case leftHash node of None \<Rightarrow> Some (None, s1)
                    | Some lh \<Rightarrow> deleteNodesFrom mk n v lh s1) = Some (None, s2)
                \<and> extends s1 (map (\<lambda>x. OpDelete (nodeKey x)) lops) s2 \<and> cache_coherent mk s2"
    proof (cases "leftHash node")
      case None
      then show ?thesis using c1 by (simp add: lops_def extends_refl)
    next
      case (Some lh)
      with tl have "tree_resolves mk (db s1) n lh" by (simp add: d1)
      from Suc.IH [OF c1 a1 this] show ?thesis by (simp add: Some lops_def d1)
    qed
    then obtain s2 where l2: "(case leftHash node of None \<Rightarrow> Some (None, s1)
                    | Some lh \<Rightarrow> deleteNodesFrom mk n v lh s1) = Some (None, s2)"
      and e2: "extends s1 (map (\<lambda>x. OpDelete (nodeKey x)) lops) s2"
      and c2: "cache_coherent mk s2" by blast
    have a2: "accepting s2" using e2 a1 by (rule extends_accepting)
    have d2: "db s2 = db s" using e2 d1 by (simp add: extends_def)
    have R: "\<exists>s3. (case rightHash node of None \<Rightarrow> Some (None, s2)
                    | Some rh \<Rightarrow> deleteNodesFrom mk n v rh s2) = Some (None, s3)
                \<and> extends s2 (map (\<lambda>x. OpDelete (nodeKey x)) rops) s3 \<and> cache_coherent mk s3"
    proof (cases "rightHash node")
      case None
      then show ?thesis using c2 by (simp add: rops_def extends_refl)
    next
      case (Some rh)
      with tr have "tree_resolves mk (db s2) n rh" by (simp add: d2)
      from Suc.IH [OF c2 a2 this] show ?thesis by (simp add: Some rops_def d2)
    qed
    then obtain s3 where r3: "(case rightHash node of None \<Rightarrow> Some (None, s2)
                    | Some rh \<Rightarrow> deleteNodesFrom mk n v rh s2) = Some (None, s3)"
      and e3: "extends s2 (map (\<lambda>x. OpDelete (nodeKey x)) rops) s3"
      and c3: "cache_coherent mk s3" by blast
    have a3: "accepting s3" using e3 a2 by (rule extends_accepting)
    have e13: "extends s (map (\<lambda>x. OpDelete (nodeKey x)) (lops @ rops)) s3"
      using extends_trans [OF extends_trans [OF e1 e2] e3] by simp
    define s4 where "s4 = (if v \<le>s nversion node
                           then uncacheNode h (s3\<lparr>batch := (batch s3)\<lparr>pending := pending (batch s3) @ [OpDelete (nodeKey h)]\<rparr>\<rparr>)
                           else s3)"
    have unf: "deleteNodesFrom mk (Suc n) v h s = Some (None, s4)"
      using False g l2 r3 a3
      by (simp add: s4_def batch_Delete_def accepting_def)
    have e34: "extends s3 (if v \<le>s nversion node then [OpDelete (nodeKey h)] else []) s4"
      by (simp add: s4_def extends_def)
    have c4: "cache_coherent mk s4"
      using c3 cache_coherent_uncacheNode [of mk "s3\<lparr>batch := (batch s3)\<lparr>pending := pending (batch s3) @ [OpDelete (nodeKey h)]\<rparr>\<rparr>" h]
      by (simp add: s4_def)
    have nf: "nodesFrom mk (db s) (Suc n) v h
                = lops @ rops @ (if v \<le>s nversion node then [h] else [])"
      using False l by (simp add: lops_def rops_def)
    have "extends s (map (\<lambda>x. OpDelete (nodeKey x)) (nodesFrom mk (db s) (Suc n) v h)) s4"
      using extends_trans [OF e13 e34] unfolding nf by (simp split: if_splits)
    with unf c4 show ?thesis by blast
  qed
qed

lemma nodesFrom_version:
  "x \<in> set (nodesFrom mk d n v h) \<Longrightarrow> \<exists>node. loadNode mk d x = Some node \<and> v \<le>s nversion node"
proof (induction n arbitrary: h)
  case 0
  then show ?case by simp
next
  case (Suc n)
  then show ?case
    by (fastforce split: if_splits option.splits)
qed

lemma db_Iterator_rootKey:
  assumes "kv \<in> set (db_Iterator d (rootKey a) (rootKey b))"
  shows "\<exists>r. fst kv = 0x72 # r"
proof -
  from assms have le: "rootKey a \<le> fst kv" and lt: "fst kv < rootKey b"
    by (auto simp: db_Iterator_def)
  show ?thesis
  proof (cases "fst kv")
    case Nil
    with le show ?thesis by (simp add: rootKey_def)
  next
    case (Cons x xs)
    with le lt have "0x72 \<le> x" "x \<le> 0x72"
      by (auto simp: rootKey_def)
    then have "x = 0x72" by simp
    with Cons show ?thesis by simp
  qed
qed

text \<open>
  The operations of the four steps of the spec, in their order: the node records of the
  latest tree from \<open>version\<close> on, the operations on the orphan records, the root
  records from \<open>version\<close> on, and the fast nodes last updated at \<open>version\<close> or
  later.
\<close>

definition DeleteVersionsFrom_ops ::
  "(bytes \<Rightarrow> error + Node) \<Rightarrow> (bytes \<Rightarrow> bytes \<Rightarrow> error + FastNode) \<Rightarrow> nat \<Rightarrow> int64
     \<Rightarrow> bytes \<Rightarrow> (bytes \<times> bytes) list \<Rightarrow> batch_op list" where
  "DeleteVersionsFrom_ops MakeNode DeserializeFastNode depth version root d =
     map (\<lambda>hash. OpDelete (nodeKey hash)) (nodesFrom MakeNode d depth version root)
     @ concat (map (DeleteVersionsFrom_orphan_ops version) (IteratePrefix d orphanPrefix))
     @ map (\<lambda>kv. OpDelete (fst kv)) (db_Iterator d (rootKey version) (rootKey 0x7FFFFFFFFFFFFFFF))
     @ concat (map (DeleteVersionsFrom_fast_ops DeserializeFastNode version)
                 (IteratePrefix d fastPrefix))"

lemma DeleteVersionsFrom_fuel_le:
  assumes "DeleteVersionsFrom mk dfn n v s = Some r" "n \<le> m"
  shows "DeleteVersionsFrom mk dfn m v s = Some r"
  using assms(2) assms(1)
  by (induction rule: nat_induct_at_least) (auto intro: DeleteVersionsFrom_fuel)

lemma DeleteVersionsFrom_ops_node:
  assumes res: "orphans_resolve mk d"
    and rec: "(orphanKey f t h, h) \<in> set d"
    and old: "\<not> v \<le>s f"
  shows "OpDelete (nodeKey h) \<notin> set (DeleteVersionsFrom_ops mk dfn n v root d)"
proof -
  have mem: "(orphanKey f t h, h) \<in> set (IteratePrefix d orphanPrefix)"
    using rec by (simp add: set_IteratePrefix has_prefix_orphanPrefix)
  with res obtain node where n: "loadNode mk d h = Some node" "nversion node = f"
    by (fastforce simp: orphans_resolve_def list_all_iff orphanScan_orphanKey split: option.splits)
  have a: "OpDelete (nodeKey h) \<notin> set (map (\<lambda>hash. OpDelete (nodeKey hash)) (nodesFrom mk d n v root))"
  proof
    assume "OpDelete (nodeKey h) \<in> set (map (\<lambda>hash. OpDelete (nodeKey hash)) (nodesFrom mk d n v root))"
    then have "h \<in> set (nodesFrom mk d n v root)" by (auto simp: nodeKey_def)
    from nodesFrom_version [OF this] n old show False by auto
  qed
  have b: "OpDelete (nodeKey h)
             \<notin> set (concat (map (DeleteVersionsFrom_orphan_ops v) (IteratePrefix d orphanPrefix)))"
  proof
    assume "OpDelete (nodeKey h)
             \<in> set (concat (map (DeleteVersionsFrom_orphan_ops v) (IteratePrefix d orphanPrefix)))"
    then obtain kv where kv: "kv \<in> set (IteratePrefix d orphanPrefix)"
      "OpDelete (nodeKey h) \<in> set (DeleteVersionsFrom_orphan_ops v kv)" by auto
    from kv(1) obtain r where k: "fst kv = 0x6F # r"
      by (auto simp: set_IteratePrefix has_prefix_iff orphanPrefix_def)
    from kv(2) k have s: "snd kv = h" "v \<le>s snd (orphanScan (fst kv))"
      by (auto simp: DeleteVersionsFrom_orphan_ops_def nodeKey_def Let_def case_prod_beta
            split: if_splits)
    from res kv(1) s(1) n have "nversion node = snd (orphanScan (fst kv))"
      by (fastforce simp: orphans_resolve_def list_all_iff split: option.splits)
    with s(2) n(2) old show False by simp
  qed
  have c: "OpDelete (nodeKey h)
             \<notin> set (map (\<lambda>kv. OpDelete (fst kv))
                       (db_Iterator d (rootKey v) (rootKey 0x7FFFFFFFFFFFFFFF)))"
    using db_Iterator_rootKey [of _ d v "0x7FFFFFFFFFFFFFFF"] by (fastforce simp: nodeKey_def)
  have e: "OpDelete (nodeKey h)
             \<notin> set (concat (map (DeleteVersionsFrom_fast_ops dfn v) (IteratePrefix d fastPrefix)))"
    by (auto simp: DeleteVersionsFrom_fast_ops_def nodeKey_def fastNodeKey_def
          split: sum.splits if_splits)
  show ?thesis using a b c e by (simp add: DeleteVersionsFrom_ops_def)
qed

lemma DeleteVersionsFrom_ops_orphan:
  assumes rec: "(orphanKey f t h, h) \<in> set d"
  shows "OpDelete (orphanKey f t h) \<in> set (DeleteVersionsFrom_ops mk dfn n v root d)
           \<longleftrightarrow> v \<le>s f \<or> v - 1 \<le>s t"
proof -
  have mem: "(orphanKey f t h, h) \<in> set (IteratePrefix d orphanPrefix)"
    using rec by (simp add: set_IteratePrefix has_prefix_orphanPrefix)
  have a: "OpDelete (orphanKey f t h)
             \<notin> set (map (\<lambda>hash. OpDelete (nodeKey hash)) (nodesFrom mk d n v root))"
    by (auto simp: nodeKey_def orphanKey_def)
  have b: "OpDelete (orphanKey f t h)
             \<in> set (concat (map (DeleteVersionsFrom_orphan_ops v) (IteratePrefix d orphanPrefix)))
           \<longleftrightarrow> v \<le>s f \<or> v - 1 \<le>s t" (is "?L \<longleftrightarrow> ?R")
  proof
    assume ?R
    then have "OpDelete (orphanKey f t h)
                 \<in> set (DeleteVersionsFrom_orphan_ops v (orphanKey f t h, h))"
      by (auto simp: DeleteVersionsFrom_orphan_ops_record)
    with mem show ?L by auto
  next
    assume ?L
    then obtain kv where kv: "kv \<in> set (IteratePrefix d orphanPrefix)"
      "OpDelete (orphanKey f t h) \<in> set (DeleteVersionsFrom_orphan_ops v kv)" by auto
    from kv(2) have "fst kv = orphanKey f t h \<and> DeleteVersionsFrom_orphan_ops v kv \<noteq> []"
      by (auto simp: DeleteVersionsFrom_orphan_ops_def nodeKey_def orphanKey_def Let_def
            case_prod_beta split: if_splits)
    then show ?R
      by (auto simp: DeleteVersionsFrom_orphan_ops_def orphanScan_orphanKey Let_def
            split: if_splits)
  qed
  have c: "OpDelete (orphanKey f t h)
             \<notin> set (map (\<lambda>kv. OpDelete (fst kv))
                       (db_Iterator d (rootKey v) (rootKey 0x7FFFFFFFFFFFFFFF)))"
    using db_Iterator_rootKey [of _ d v "0x7FFFFFFFFFFFFFFF"] by (fastforce simp: orphanKey_def)
  have e: "OpDelete (orphanKey f t h)
             \<notin> set (concat (map (DeleteVersionsFrom_fast_ops dfn v) (IteratePrefix d fastPrefix)))"
    by (auto simp: DeleteVersionsFrom_fast_ops_def orphanKey_def fastNodeKey_def
          split: sum.splits if_splits)
  show ?thesis using a b c e by (simp add: DeleteVersionsFrom_ops_def)
qed

lemma DeleteVersionsFrom_ops_orphan_node:
  assumes rec: "(orphanKey f t h, h) \<in> set d" and new: "v \<le>s f"
  shows "OpDelete (nodeKey h) \<in> set (DeleteVersionsFrom_ops mk dfn n v root d)"
proof -
  have mem: "(orphanKey f t h, h) \<in> set (IteratePrefix d orphanPrefix)"
    using rec by (simp add: set_IteratePrefix has_prefix_orphanPrefix)
  have "OpDelete (nodeKey h) \<in> set (DeleteVersionsFrom_orphan_ops v (orphanKey f t h, h))"
    using new by (simp add: DeleteVersionsFrom_orphan_ops_record)
  with mem have "OpDelete (nodeKey h)
             \<in> set (concat (map (DeleteVersionsFrom_orphan_ops v) (IteratePrefix d orphanPrefix)))"
    by auto
  then show ?thesis by (simp add: DeleteVersionsFrom_ops_def)
qed

lemma DeleteVersionsFrom_returns:
  assumes latest: "\<not> fst (getLatestVersion ndb) <s version"
    and rd: "\<not> list_ex (\<lambda>vr. version \<le>s fst vr \<and> snd vr \<noteq> 0) (versionReaders ndb)"
    and root: "db_Get (db ndb) (rootKey (fst (getLatestVersion ndb))) = Some root"
    and tree: "tree_resolves MakeNode (db ndb) depth root"
    and cache: "cache_coherent MakeNode ndb"
    and acc: "accepting ndb"
    and fast: "\<forall>kv \<in> set (IteratePrefix (db ndb) fastPrefix).
                 \<exists>f. DeserializeFastNode (drop 1 (fst kv)) (snd kv) = Inr f"
  shows "\<exists>ndb'. (\<forall>fuel. depth \<le> fuel \<longrightarrow>
                    DeleteVersionsFrom MakeNode DeserializeFastNode fuel version ndb
                      = Some (None, ndb'))
           \<and> db ndb' = db ndb
           \<and> pending (batch ndb')
               = pending (batch ndb)
                 @ DeleteVersionsFrom_ops MakeNode DeserializeFastNode depth version root (db ndb)"
proof -
  define ndb1 where "ndb1 = snd (getLatestVersion ndb)"
  have f1: "db ndb1 = db ndb" "accepting ndb1" "cache_coherent MakeNode ndb1"
    "pending (batch ndb1) = pending (batch ndb)"
    using acc cache by (simp_all add: ndb1_def accepting_def cache_coherent_def)
  from tree have "tree_resolves MakeNode (db ndb1) depth root" by (simp add: f1)
  from deleteNodesFrom_tree [OF f1(3) f1(2) this, of version]
  obtain ndb2 where d: "deleteNodesFrom MakeNode depth version root ndb1 = Some (None, ndb2)"
    and e: "extends ndb1 (map (\<lambda>x. OpDelete (nodeKey x))
                           (nodesFrom MakeNode (db ndb) depth version root)) ndb2"
    unfolding f1 by blast
  have nodes: "deleteNodesFrom MakeNode depth version root (snd (getLatestVersion ndb))
                 = Some (None, ndb2)"
    using d by (simp add: ndb1_def)
  from DeleteVersionsFrom_effect [OF latest rd root nodes acc fast]
  obtain ndb' where r: "DeleteVersionsFrom MakeNode DeserializeFastNode depth version ndb
                          = Some (None, ndb')"
    and db': "db ndb' = db ndb"
    and p: "pending (batch ndb')
               = pending (batch ndb2)
                 @ concat (map (DeleteVersionsFrom_orphan_ops version)
                             (IteratePrefix (db ndb) orphanPrefix))
                 @ map (\<lambda>kv. OpDelete (fst kv))
                     (db_Iterator (db ndb) (rootKey version) (rootKey 0x7FFFFFFFFFFFFFFF))
                 @ concat (map (DeleteVersionsFrom_fast_ops DeserializeFastNode version)
                             (IteratePrefix (db ndb) fastPrefix))"
    by blast
  have p2: "pending (batch ndb2)
              = pending (batch ndb) @ map (\<lambda>x. OpDelete (nodeKey x))
                           (nodesFrom MakeNode (db ndb) depth version root)"
    using e f1(4) by (simp add: extends_def)
  have "\<forall>fuel. depth \<le> fuel \<longrightarrow>
                    DeleteVersionsFrom MakeNode DeserializeFastNode fuel version ndb
                      = Some (None, ndb')"
    using DeleteVersionsFrom_fuel_le [OF r] by blast
  moreover have "pending (batch ndb')
               = pending (batch ndb)
                 @ DeleteVersionsFrom_ops MakeNode DeserializeFastNode depth version root (db ndb)"
    unfolding p p2 by (simp add: DeleteVersionsFrom_ops_def)
  ultimately show ?thesis using db' by blast
qed

text \<open>
  Claim C2, as the code has it. The call needs more than the claim asks (the latest
  version is at least \<open>version\<close> and no reader is on a version from \<open>version\<close>
  upwards): the root record of the latest version must be in the store. The other
  hypotheses are the store of the spec: the tree below that root resolves to node
  records, to some depth; every orphan record names a node record whose version is the
  first version of the orphan; the node cache agrees with the store; the batch accepts
  its writes and the fast-node records decode. Then the call returns without error, with
  the same state for every depth allowed from the depth of the tree on; it leaves the
  store as it was and adds to the batch the operations \<open>issued\<close>, those of the four
  steps. For every orphan record \<open>(t, f, h)\<close>: when \<open>f\<close> is at least
  \<open>version\<close>, the deletions of the orphan record and of the node record of \<open>h\<close>
  are issued; when it is not and \<open>t\<close> is at least \<open>version - 1\<close>, the deletion of
  the orphan record is issued and no deletion of the node record of \<open>h\<close> is, by any
  step of the call: the node record is kept; otherwise neither is issued.
\<close>

theorem DeleteVersionsFrom_orphan_records:
  assumes latest: "\<not> fst (getLatestVersion ndb) <s version"
    and rd: "\<not> list_ex (\<lambda>vr. version \<le>s fst vr \<and> snd vr \<noteq> 0) (versionReaders ndb)"
    and root: "db_Get (db ndb) (rootKey (fst (getLatestVersion ndb))) = Some root"
    and tree: "tree_resolves MakeNode (db ndb) depth root"
    and orphans: "orphans_resolve MakeNode (db ndb)"
    and cache: "cache_coherent MakeNode ndb"
    and acc: "accepting ndb"
    and fast: "\<forall>kv \<in> set (IteratePrefix (db ndb) fastPrefix).
                 \<exists>f. DeserializeFastNode (drop 1 (fst kv)) (snd kv) = Inr f"
  shows "\<exists>ndb' issued.
           (\<forall>fuel. depth \<le> fuel \<longrightarrow>
              DeleteVersionsFrom MakeNode DeserializeFastNode fuel version ndb = Some (None, ndb'))
           \<and> db ndb' = db ndb
           \<and> pending (batch ndb') = pending (batch ndb) @ issued
           \<and> issued = DeleteVersionsFrom_ops MakeNode DeserializeFastNode depth version root (db ndb)
           \<and> (\<forall>f t h. (orphanKey f t h, h) \<in> set (db ndb) \<longrightarrow>
                 (version \<le>s f \<longrightarrow>
                    OpDelete (orphanKey f t h) \<in> set issued \<and> OpDelete (nodeKey h) \<in> set issued)
                 \<and> (\<not> version \<le>s f \<and> version - 1 \<le>s t \<longrightarrow>
                    OpDelete (orphanKey f t h) \<in> set issued \<and> OpDelete (nodeKey h) \<notin> set issued)
                 \<and> (\<not> version \<le>s f \<and> \<not> version - 1 \<le>s t \<longrightarrow>
                    OpDelete (orphanKey f t h) \<notin> set issued \<and> OpDelete (nodeKey h) \<notin> set issued))"
proof -
  from DeleteVersionsFrom_returns [OF latest rd root tree cache acc fast]
  obtain ndb' where r: "\<forall>fuel. depth \<le> fuel \<longrightarrow>
              DeleteVersionsFrom MakeNode DeserializeFastNode fuel version ndb = Some (None, ndb')"
    and d: "db ndb' = db ndb"
    and p: "pending (batch ndb')
               = pending (batch ndb)
                 @ DeleteVersionsFrom_ops MakeNode DeserializeFastNode depth version root (db ndb)"
    by blast
  show ?thesis
    using r d p DeleteVersionsFrom_ops_node [OF orphans, of _ _ _ version DeserializeFastNode depth root]
      DeleteVersionsFrom_ops_orphan [of _ _ _ "db ndb" MakeNode DeserializeFastNode depth version root]
      DeleteVersionsFrom_ops_orphan_node [of _ _ _ "db ndb" version MakeNode DeserializeFastNode depth root]
    by (intro exI [of _ ndb'] exI [of _ "DeleteVersionsFrom_ops MakeNode DeserializeFastNode depth version root (db ndb)"]) blast
qed

text \<open>
  A database of three versions over the keys \<open>j\<close> and \<open>k\<close>. Version 1 is the leaf
  \<open>hashA\<close> of \<open>k\<close>. Version 2 adds \<open>j\<close>: its root is the inner node
  \<open>hashY\<close> over the new leaf \<open>hashB\<close> and \<open>hashA\<close>. Version 3 sets \<open>k\<close>
  again: its root is the inner node \<open>hashC\<close> over \<open>hashB\<close> and the new leaf
  \<open>hashE\<close>, and it orphans \<open>hashY\<close>, created at 2 and last live at 2, and
  \<open>hashA\<close>, created at 1 and last live at 2. The fast nodes of \<open>j\<close> and \<open>k\<close>
  were last updated at versions 2 and 3. The decoders read the one byte of the records of
  this store.
\<close>

definition hashC :: bytes where "hashC = replicate 32 0xCC"
definition hashE :: bytes where "hashE = replicate 32 0xEE"
definition hashY :: bytes where "hashY = replicate 32 0x22"

definition leafA :: Node where
  "leafA = \<lparr>nkey = [0x6B], nvalue = Some [0x61], nversion = 1, nheight = 0, nsize = 1,
            nhash = [], leftHash = None, rightHash = None, persisted = False\<rparr>"

definition leafB :: Node where
  "leafB = \<lparr>nkey = [0x6A], nvalue = Some [0x62], nversion = 2, nheight = 0, nsize = 1,
            nhash = [], leftHash = None, rightHash = None, persisted = False\<rparr>"

definition nodeY :: Node where
  "nodeY = \<lparr>nkey = [0x6B], nvalue = None, nversion = 2, nheight = 1, nsize = 2,
            nhash = [], leftHash = Some hashB, rightHash = Some hashA, persisted = False\<rparr>"

definition leafE :: Node where
  "leafE = \<lparr>nkey = [0x6B], nvalue = Some [0x65], nversion = 3, nheight = 0, nsize = 1,
            nhash = [], leftHash = None, rightHash = None, persisted = False\<rparr>"

definition nodeC :: Node where
  "nodeC = \<lparr>nkey = [0x6B], nvalue = None, nversion = 3, nheight = 1, nsize = 2,
            nhash = [], leftHash = Some hashB, rightHash = Some hashE, persisted = False\<rparr>"

definition codec3 :: "bytes \<Rightarrow> error + Node" where
  "codec3 buf =
     (if buf = [1] then Inr leafA else if buf = [2] then Inr leafB
      else if buf = [3] then Inr nodeY else if buf = [4] then Inr leafE
      else if buf = [5] then Inr nodeC else Inl (ErrDecode 0))"

definition fastCodec3 :: "bytes \<Rightarrow> bytes \<Rightarrow> error + FastNode" where
  "fastCodec3 k v =
     (case v of
        [ver] \<Rightarrow> Inr \<lparr>fkey = k, versionLastUpdatedAt = ucast ver, fvalue = []\<rparr>
      | _ \<Rightarrow> Inl (ErrDecode 1))"

definition store3 :: "(bytes \<times> bytes) list" where
  "store3 = [(nodeKey hashA, [1]), (nodeKey hashB, [2]), (nodeKey hashY, [3]),
             (nodeKey hashE, [4]), (nodeKey hashC, [5]),
             (orphanKey 1 2 hashA, hashA), (orphanKey 2 2 hashY, hashY),
             (rootKey 1, hashA), (rootKey 2, hashY), (rootKey 3, hashC),
             (fastNodeKey [0x6A], [2]), (fastNodeKey [0x6B], [3])]"

lemma s3_latest: "fst (getLatestVersion (newNodeDB store3 (\<lambda>_. None) 10)) = 3"
  by code_simp

lemma s3_root: "db_Get store3 (rootKey 3) = Some hashC"
  by code_simp

lemma s3_tree: "tree_resolves codec3 store3 2 hashC"
  by code_simp

lemma s3_orphans: "orphans_resolve codec3 store3"
  by code_simp

lemma s3_fast: "list_all (\<lambda>kv. case fastCodec3 (drop 1 (fst kv)) (snd kv) of Inl e \<Rightarrow> False | Inr f \<Rightarrow> True)
                  (IteratePrefix store3 fastPrefix)"
  by code_simp

lemma s3_ops: "DeleteVersionsFrom_ops codec3 fastCodec3 2 2 hashC store3
                 = [OpDelete (nodeKey hashB), OpDelete (nodeKey hashE), OpDelete (nodeKey hashC),
                    OpDelete (orphanKey 1 2 hashA),
                    OpDelete (orphanKey 2 2 hashY), OpDelete (nodeKey hashY),
                    OpDelete (rootKey 2), OpDelete (rootKey 3),
                    OpDelete (fastNodeKey [0x6A]), OpDelete (fastNodeKey [0x6B])]"
  by code_simp

lemma s3_kept: "OpDelete (nodeKey hashA)
                 \<notin> set [OpDelete (nodeKey hashB), OpDelete (nodeKey hashE), OpDelete (nodeKey hashC),
                    OpDelete (orphanKey 1 2 hashA),
                    OpDelete (orphanKey 2 2 hashY), OpDelete (nodeKey hashY),
                    OpDelete (rootKey 2), OpDelete (rootKey 3),
                    OpDelete (fastNodeKey [0x6A]), OpDelete (fastNodeKey [0x6B])]"
  by code_simp

text \<open>
  C2 on that database, for version 2, with the depth 2 of the latest tree and with the
  depth 5: the descent deletes the three nodes of the latest tree, the orphan
  \<open>hashA\<close> loses its record only (its node record is kept: version 1 is the latest
  again) and the orphan \<open>hashY\<close> its record and its node record; then the roots of
  versions 2 and 3 and both fast nodes are deleted.
\<close>

theorem DeleteVersionsFrom_orphan_records_witness:
  "\<exists>ndb'. DeleteVersionsFrom codec3 fastCodec3 2 2 (newNodeDB store3 (\<lambda>_. None) 10)
            = Some (None, ndb')
      \<and> DeleteVersionsFrom codec3 fastCodec3 5 2 (newNodeDB store3 (\<lambda>_. None) 10)
            = Some (None, ndb')
      \<and> db ndb' = store3
      \<and> pending (batch ndb')
            = [OpDelete (nodeKey hashB), OpDelete (nodeKey hashE), OpDelete (nodeKey hashC),
               OpDelete (orphanKey 1 2 hashA),
               OpDelete (orphanKey 2 2 hashY), OpDelete (nodeKey hashY),
               OpDelete (rootKey 2), OpDelete (rootKey 3),
               OpDelete (fastNodeKey [0x6A]), OpDelete (fastNodeKey [0x6B])]
      \<and> OpDelete (nodeKey hashA) \<notin> set (pending (batch ndb'))"
proof -
  let ?s = "newNodeDB store3 (\<lambda>_. None) 10"
  have f: "db ?s = store3" "versionReaders ?s = []" "accepting ?s" "pending (batch ?s) = []"
    "cache_coherent codec3 ?s"
    by (simp_all add: newNodeDB_def accepting_def cache_coherent_def)
  have latest: "\<not> fst (getLatestVersion ?s) <s 2" by (simp add: s3_latest word_sless_alt)
  have rd: "\<not> list_ex (\<lambda>vr. 2 \<le>s fst vr \<and> snd vr \<noteq> 0) (versionReaders ?s)"
    by (simp add: f)
  have root: "db_Get (db ?s) (rootKey (fst (getLatestVersion ?s))) = Some hashC"
    by (simp add: f s3_latest s3_root)
  have tree: "tree_resolves codec3 (db ?s) 2 hashC" by (simp add: f s3_tree)
  have orph: "orphans_resolve codec3 (db ?s)" by (simp add: f s3_orphans)
  have fast: "\<forall>kv \<in> set (IteratePrefix (db ?s) fastPrefix).
                 \<exists>f. fastCodec3 (drop 1 (fst kv)) (snd kv) = Inr f"
  proof
    fix kv
    assume "kv \<in> set (IteratePrefix (db ?s) fastPrefix)"
    with s3_fast
    have "case fastCodec3 (drop 1 (fst kv)) (snd kv) of Inl e \<Rightarrow> False | Inr f \<Rightarrow> True"
      by (simp add: f list_all_iff)
    then show "\<exists>f. fastCodec3 (drop 1 (fst kv)) (snd kv) = Inr f"
      by (cases "fastCodec3 (drop 1 (fst kv)) (snd kv)") auto
  qed
  from DeleteVersionsFrom_orphan_records [OF latest rd root tree orph f(5) f(3) fast]
  show ?thesis unfolding f s3_ops using s3_kept by (auto simp del: set_simps)
qed

text \<open>
  The hypothesis on the orphan records is needed. In the store below, the one orphan
  record names the leaf \<open>hashB\<close> with the first version 1, while the node record of
  \<open>hashB\<close> has the version 2 and is in the latest tree: the descent deletes the node
  record of an orphan that loses its orphan record only. The spec excludes such a store:
  the first version of an orphan is the version its node was created at.
\<close>

definition store4 :: "(bytes \<times> bytes) list" where
  "store4 = [(nodeKey hashA, [1]), (nodeKey hashB, [2]), (nodeKey hashY, [3]),
             (nodeKey hashE, [4]), (nodeKey hashC, [5]),
             (orphanKey 1 1 hashB, hashB),
             (rootKey 1, hashA), (rootKey 2, hashY), (rootKey 3, hashC),
             (fastNodeKey [0x6A], [2]), (fastNodeKey [0x6B], [3])]"

lemma DeleteVersionsFrom_foreign_orphan:
  "tree_resolves codec3 store4 2 hashC
   \<and> \<not> orphans_resolve codec3 store4
   \<and> map_option (\<lambda>res. (fst res, pending (batch (snd res))))
         (DeleteVersionsFrom codec3 fastCodec3 2 2 (newNodeDB store4 (\<lambda>_. None) 10))
       = Some (None,
               [OpDelete (nodeKey hashB), OpDelete (nodeKey hashE), OpDelete (nodeKey hashC),
                OpDelete (orphanKey 1 1 hashB),
                OpDelete (rootKey 2), OpDelete (rootKey 3),
                OpDelete (fastNodeKey [0x6A]), OpDelete (fastNodeKey [0x6B])])"
  by code_simp

text \<open>
  C2 as the spec states it fails when the root record of the latest version is not in
  the store. On the store of C3, after the root of version 3 was saved to the batch and
  not yet committed, the latest version is 3, there is no reader, and the orphan with
  the lifetime from 1 to 1 should lose its record when all versions from 2 are deleted.
  The call returns the error of the missing root and deletes nothing.
\<close>

theorem DeleteVersionsFrom_missing_root_counterexample:
  "fst (saveRoot hashB 3 (newNodeDB store1 (\<lambda>_. None) 0)) = None
   \<and> fst (getLatestVersion (snd (saveRoot hashB 3 (newNodeDB store1 (\<lambda>_. None) 0)))) = 3
   \<and> \<not> (3 :: int64) <s 2
   \<and> versionReaders (snd (saveRoot hashB 3 (newNodeDB store1 (\<lambda>_. None) 0))) = []
   \<and> (orphanKey 1 1 hashA, hashA)
       \<in> set (db (snd (saveRoot hashB 3 (newNodeDB store1 (\<lambda>_. None) 0))))
   \<and> \<not> (2 :: int64) \<le>s 1 \<and> (2 - 1 :: int64) \<le>s 1
   \<and> DeleteVersionsFrom codec3 fastCodec3 3 2
         (snd (saveRoot hashB 3 (newNodeDB store1 (\<lambda>_. None) 0)))
       = Some (Some ErrRootNotFound, snd (saveRoot hashB 3 (newNodeDB store1 (\<lambda>_. None) 0)))
   \<and> OpDelete (orphanKey 1 1 hashA)
       \<notin> set (pending (batch (snd (saveRoot hashB 3 (newNodeDB store1 (\<lambda>_. None) 0)))))"
proof -
  have s: "saveRoot hashB 3 (newNodeDB store1 (\<lambda>_. None) 0)
             = (None, (newNodeDB store1 (\<lambda>_. None) 0)
                        \<lparr>latestVersion := 3,
                          batch := \<lparr>pending = [OpSet (rootKey 3) hashB],
                                    refuses = (\<lambda>_. None)\<rparr>\<rparr>)"
    using s1_latest
    by (cases "getLatestVersion (newNodeDB store1 (\<lambda>_. None) 0)")
       (auto simp: saveRoot_def batch_Set_def updateLatestVersion_def word_sless_alt
          getLatestVersion_def newNodeDB_def Let_def split: if_splits)
  have g: "db_Get store1 (rootKey 3) = None"
    by (simp add: store1_def db_Get_def eval_keys2)
  show ?thesis
    unfolding s
    by (simp add: DeleteVersionsFrom_def getLatestVersion_def s1_db g word_sle_eq word_sless_alt)
       (simp add: store1_def)
qed

end
